theory Spec2Isabelle
  imports Complex_Main
begin

section \<open>Entity model\<close>

text \<open>
  The TypeScript object types of the tracker, one record per type. Isabelle records share
  one name space for their fields, so every field carries a short prefix naming its type
  (\<open>m_goalsA\<close> is \<open>Match.goalsA\<close>, \<open>a_goalsA\<close> is \<open>ActiveSessionMatch.goalsA\<close>).
  A JavaScript \<open>number\<close> that holds a goal count or a tally is an \<open>int\<close>; \<open>number | null\<close>
  is \<open>int option\<close>; an optional string field is \<open>string option\<close>.
\<close>

datatype Mode = OneVsOne | TwoVsTwo

datatype ThemeKey = FCB | BVB | FALCO

datatype ViolationType =
    unerlaubt_pausiert
  | durch_den_bildschirm_gelaufen
  | koenigstitel_nicht_erwaehnt
  | kein_getraenk_erhalten
  | sonderrecht_des_hauens_ignoriert
  | sonstiges

record Player =
  p_id :: string
  p_name :: string

record Match =
  m_id :: string
  m_dateISO :: string
  m_mode :: Mode
  m_teamAName :: string
  m_teamBName :: string
  m_teamAPlayers :: "string list"
  m_teamBPlayers :: "string list"
  m_goalsA :: int
  m_goalsB :: int
  m_enteredBy :: string
  m_sessionId :: "string option"

record KingSession =
  k_id :: string
  k_dateISO :: string
  k_kings :: "string list"
  k_bestOf :: int
  k_mode :: Mode
  k_kingEnteredBy :: "string option"

record Violation =
  v_id :: string
  v_dateISO :: string
  v_playerId :: string
  v_type :: ViolationType
  v_comment :: string
  v_enteredBy :: string

record SessionTeam =
  t_id :: string
  t_name :: string
  t_players :: "string list"

record ActiveSessionMatch =
  a_id :: string
  a_teamA :: SessionTeam
  a_teamB :: SessionTeam
  a_goalsA :: "int option"
  a_goalsB :: "int option"

record ActiveSession =
  s_teams :: "SessionTeam list"
  s_schedule :: "ActiveSessionMatch list"
  s_bestOf :: int
  s_mode :: Mode

record DB =
  theme :: ThemeKey
  players :: "Player list"
  matches :: "Match list"
  kingSessions :: "KingSession list"
  violations :: "Violation list"

section \<open>A JavaScript \<open>Map\<close> with string keys\<close>

text \<open>
  \<open>computeStandings\<close> keeps its accumulators in a \<open>Map\<close>. A \<open>Map\<close> remembers the order in
  which its keys were first inserted, \<open>set\<close> on a key that is present replaces the value
  where it stands, and \<open>values()\<close> walks the entries in that order: an association list
  with an in-place update.
\<close>

fun Map_set :: "'k \<Rightarrow> 'v \<Rightarrow> ('k \<times> 'v) list \<Rightarrow> ('k \<times> 'v) list" where
  "Map_set k v [] = [(k, v)]"
| "Map_set k v ((k', v') # es) =
     (if k' = k then (k, v) # es else (k', v') # Map_set k v es)"

definition Map_new :: "('k \<times> 'v) list \<Rightarrow> ('k \<times> 'v) list" where
  "Map_new entries = foldl (\<lambda>mp (k, v). Map_set k v mp) [] entries"

definition Map_get :: "('k \<times> 'v) list \<Rightarrow> 'k \<Rightarrow> 'v option" where
  "Map_get mp k = map_of mp k"

definition Map_values :: "('k \<times> 'v) list \<Rightarrow> 'v list" where
  "Map_values mp = map snd mp"

section \<open>Standings aggregator\<close>

text \<open>
  The accumulator object that \<open>computeStandings\<close> stores per player id, and the row it
  returns (\<open>{ ...s, points, goalDiff }\<close>). The older copy of the function in
  \<open>src/App.tsx\<close> adds three floating-point ratios per game to the row and is otherwise
  the same; the ratios take no part in any property below and are left out.
\<close>

record Stat =
  st_id :: string
  st_name :: string
  st_played :: int
  st_wins :: int
  st_draws :: int
  st_losses :: int
  st_goalsFor :: int
  st_goalsAgainst :: int

record Standing =
  id :: string
  name :: string
  played :: int
  wins :: int
  draws :: int
  losses :: int
  goalsFor :: int
  goalsAgainst :: int
  points :: int
  goalDiff :: int

definition newStat :: "Player \<Rightarrow> Stat" where
  "newStat p = \<lparr> st_id = p_id p, st_name = p_name p, st_played = 0, st_wins = 0,
                 st_draws = 0, st_losses = 0, st_goalsFor = 0, st_goalsAgainst = 0 \<rparr>"

text \<open>The body of the loop over \<open>m.teamAPlayers\<close>, once \<open>map.get(pid)\<close> has found \<open>s\<close>.\<close>

definition creditA :: "Match \<Rightarrow> Stat \<Rightarrow> Stat" where
  "creditA m s =
     (let aWon = m_goalsA m > m_goalsB m;
          bWon = m_goalsB m > m_goalsA m;
          s1 = s\<lparr> st_played := st_played s + 1,
                  st_goalsFor := st_goalsFor s + m_goalsA m,
                  st_goalsAgainst := st_goalsAgainst s + m_goalsB m \<rparr>
      in if aWon then s1\<lparr> st_wins := st_wins s1 + 1 \<rparr>
         else if bWon then s1\<lparr> st_losses := st_losses s1 + 1 \<rparr>
         else s1\<lparr> st_draws := st_draws s1 + 1 \<rparr>)"

text \<open>The body of the loop over \<open>m.teamBPlayers\<close>.\<close>

definition creditB :: "Match \<Rightarrow> Stat \<Rightarrow> Stat" where
  "creditB m s =
     (let aWon = m_goalsA m > m_goalsB m;
          bWon = m_goalsB m > m_goalsA m;
          s1 = s\<lparr> st_played := st_played s + 1,
                  st_goalsFor := st_goalsFor s + m_goalsB m,
                  st_goalsAgainst := st_goalsAgainst s + m_goalsA m \<rparr>
      in if bWon then s1\<lparr> st_wins := st_wins s1 + 1 \<rparr>
         else if aWon then s1\<lparr> st_losses := st_losses s1 + 1 \<rparr>
         else s1\<lparr> st_draws := st_draws s1 + 1 \<rparr>)"

text \<open>
  One turn of an inner loop: \<open>const s = map.get(pid); if (!s) continue;\<close> and then the
  mutation of \<open>s\<close>, which is the object stored under \<open>pid\<close> and under no other key.
\<close>

definition creditPlayer :: "(Stat \<Rightarrow> Stat) \<Rightarrow> (string \<times> Stat) list \<Rightarrow> string \<Rightarrow> (string \<times> Stat) list" where
  "creditPlayer credit mp pid =
     (case Map_get mp pid of None \<Rightarrow> mp | Some s \<Rightarrow> Map_set pid (credit s) mp)"

definition creditMatch :: "(string \<times> Stat) list \<Rightarrow> Match \<Rightarrow> (string \<times> Stat) list" where
  "creditMatch mp m =
     foldl (creditPlayer (creditB m))
       (foldl (creditPlayer (creditA m)) mp (m_teamAPlayers m))
       (m_teamBPlayers m)"

definition accumulate :: "Player list \<Rightarrow> Match list \<Rightarrow> (string \<times> Stat) list" where
  "accumulate ps ms = foldl creditMatch (Map_new (map (\<lambda>p. (p_id p, newStat p)) ps)) ms"

definition toStanding :: "Stat \<Rightarrow> Standing" where
  "toStanding s =
     (let pts = st_wins s * 3 + st_draws s;
          gd = st_goalsFor s - st_goalsAgainst s
      in \<lparr> id = st_id s, name = st_name s, played = st_played s, wins = st_wins s,
           draws = st_draws s, losses = st_losses s, goalsFor = st_goalsFor s,
           goalsAgainst = st_goalsAgainst s, points = pts, goalDiff = gd \<rparr>)"

definition computeStandings :: "Player list \<Rightarrow> Match list \<Rightarrow> Standing list" where
  "computeStandings ps ms = map toStanding (Map_values (accumulate ps ms))"

text \<open>The row of a player id in a standings list.\<close>

definition standingOf :: "string \<Rightarrow> Standing list \<Rightarrow> Standing option" where
  "standingOf pid rs = find (\<lambda>r. id r = pid) rs"

section \<open>\<open>Array.prototype.sort\<close> with a comparator\<close>

text \<open>
  \<open>sort(cmp)\<close> is the platform's stable sort: \<open>a\<close> stays in front of \<open>b\<close> when
  \<open>cmp(a, b) \<le> 0\<close>, and elements that compare equal keep their order. Insertion from the
  right is the plainest sort with that behaviour; for a comparator that is a consistent
  ordering every stable sort returns the same list.
\<close>

fun insertBy :: "('a \<Rightarrow> 'a \<Rightarrow> int) \<Rightarrow> 'a \<Rightarrow> 'a list \<Rightarrow> 'a list" where
  "insertBy cmp x [] = [x]"
| "insertBy cmp x (y # ys) = (if cmp x y \<le> 0 then x # y # ys else y # insertBy cmp x ys)"

definition Array_sort :: "('a \<Rightarrow> 'a \<Rightarrow> int) \<Rightarrow> 'a list \<Rightarrow> 'a list" where
  "Array_sort cmp xs = foldr (insertBy cmp) xs []"

text \<open>\<open>xs[i]\<close>: \<open>undefined\<close> (here \<open>None\<close>) when \<open>i\<close> is out of range.\<close>

definition elemAt :: "'a list \<Rightarrow> nat \<Rightarrow> 'a option" where
  "elemAt xs i = (if i < length xs then Some (xs ! i) else None)"

section \<open>Display order of the standings table\<close>

text \<open>
  \<open>TableStats\<close> renders \<open>stats.sort((a, b) => b.points - a.points || b.goalDiff - a.goalDiff
  || b.goalsFor - a.goalsFor || a.name.localeCompare(b.name))\<close>. On numbers \<open>x || y\<close> is \<open>x\<close>
  unless \<open>x\<close> is zero. \<open>localeCompare\<close> is the platform's collation and is a parameter.
\<close>

definition standingsCmp :: "(string \<Rightarrow> string \<Rightarrow> int) \<Rightarrow> Standing \<Rightarrow> Standing \<Rightarrow> int" where
  "standingsCmp localeCompare a b =
     (if points b - points a \<noteq> 0 then points b - points a
      else if goalDiff b - goalDiff a \<noteq> 0 then goalDiff b - goalDiff a
      else if goalsFor b - goalsFor a \<noteq> 0 then goalsFor b - goalsFor a
      else localeCompare (name a) (name b))"

definition TableStats :: "(string \<Rightarrow> string \<Rightarrow> int) \<Rightarrow> Standing list \<Rightarrow> Standing list" where
  "TableStats localeCompare stats = Array_sort (standingsCmp localeCompare) stats"

text \<open>
  A concrete collation for the worked examples: comparison by character code, which is
  how every locale orders the plain same-case names used there.
\<close>

fun codeCompare :: "string \<Rightarrow> string \<Rightarrow> int" where
  "codeCompare [] [] = 0"
| "codeCompare [] (y # ys) = - 1"
| "codeCompare (x # xs) [] = 1"
| "codeCompare (x # xs) (y # ys) =
     (if (of_char x :: nat) < of_char y then - 1
      else if (of_char y :: nat) < of_char x then 1
      else codeCompare xs ys)"

section \<open>King-streak calculator\<close>

text \<open>
  \<open>useKingInfo\<close> keeps two objects indexed by player id, \<open>longestStreaks\<close> and
  \<open>currentStreaks\<close>: maps from \<open>string\<close> to \<open>int\<close>, threaded through the loops as a pair
  (longest, current). Every key the later loops read was written by the first loop over
  the same \<open>db.players\<close>, so a read never misses; the \<open>None\<close> branches below stand for
  that impossible case and leave the state alone. \<open>new Date(s).getTime()\<close> is the
  platform's date parser and is the parameter \<open>getTime\<close>; every \<open>dateISO\<close> is written by
  \<open>toISOString()\<close>, so it parses to a whole number of milliseconds.
\<close>

type_synonym Streaks = "(string \<rightharpoonup> int) \<times> (string \<rightharpoonup> int)"

text \<open>The body of the first loop, which sets both entries of a player to 0.\<close>

definition initStep :: "Streaks \<Rightarrow> Player \<Rightarrow> Streaks" where
  "initStep st player =
     (case st of (longestStreaks, currentStreaks) \<Rightarrow>
        (longestStreaks(p_id player \<mapsto> 0), currentStreaks(p_id player \<mapsto> 0)))"

definition initStreaks :: "Player list \<Rightarrow> Streaks" where
  "initStreaks ps = foldl initStep (Map.empty, Map.empty) ps"

text \<open>The body of the loop over \<open>db.players\<close> inside the loop over the sessions.\<close>

definition playerStep :: "string set \<Rightarrow> Streaks \<Rightarrow> Player \<Rightarrow> Streaks" where
  "playerStep winnerIds st player =
     (case st of (longestStreaks, currentStreaks) \<Rightarrow>
        (case (currentStreaks (p_id player), longestStreaks (p_id player)) of
           (Some c, Some l) \<Rightarrow>
             if p_id player \<in> winnerIds
             then (longestStreaks, currentStreaks(p_id player \<mapsto> c + 1))
             else ((if c > l then longestStreaks(p_id player \<mapsto> c) else longestStreaks),
                   currentStreaks(p_id player \<mapsto> 0))
         | _ \<Rightarrow> st))"

definition sessionStep :: "Player list \<Rightarrow> Streaks \<Rightarrow> KingSession \<Rightarrow> Streaks" where
  "sessionStep ps st session =
     (if length (k_kings session) = 0 then st
      else foldl (playerStep (set (k_kings session))) st ps)"

text \<open>The body of the last loop, which flushes the trailing run.\<close>

definition flushStep :: "Streaks \<Rightarrow> Player \<Rightarrow> Streaks" where
  "flushStep st player =
     (case st of (longestStreaks, currentStreaks) \<Rightarrow>
        (case (currentStreaks (p_id player), longestStreaks (p_id player)) of
           (Some c, Some l) \<Rightarrow>
             ((if c > l then longestStreaks(p_id player \<mapsto> c) else longestStreaks),
              currentStreaks)
         | _ \<Rightarrow> st))"

definition walkSessions :: "Player list \<Rightarrow> KingSession list \<Rightarrow> Streaks" where
  "walkSessions ps sessions = foldl (sessionStep ps) (initStreaks ps) sessions"

definition sortedSessions :: "(string \<Rightarrow> int) \<Rightarrow> DB \<Rightarrow> KingSession list" where
  "sortedSessions getTime db =
     Array_sort (\<lambda>a b. getTime (k_dateISO a) - getTime (k_dateISO b)) (kingSessions db)"

text \<open>The two objects as they stand when \<open>currentKings\<close> is computed.\<close>

definition finalStreaks :: "(string \<Rightarrow> int) \<Rightarrow> DB \<Rightarrow> Streaks" where
  "finalStreaks getTime db =
     foldl flushStep (walkSessions (players db) (sortedSessions getTime db)) (players db)"

record KingEntry =
  ke_id :: string
  ke_name :: string
  ke_streak :: int

record KingInfo =
  currentKings :: "KingEntry list"
  longestStreaks :: "string \<rightharpoonup> int"

text \<open>
  \<open>db.players.filter(p => currentStreaks[p.id] > 0).map(p => ({ id, name, streak }))\<close>,
  filter and map in one pass.
\<close>

definition useKingInfo :: "(string \<Rightarrow> int) \<Rightarrow> DB \<Rightarrow> KingInfo" where
  "useKingInfo getTime db =
     (case finalStreaks getTime db of (longest, current) \<Rightarrow>
        \<lparr> currentKings =
            List.map_filter
              (\<lambda>p. case current (p_id p) of
                      Some c \<Rightarrow> if c > 0
                                then Some \<lparr> ke_id = p_id p, ke_name = p_name p, ke_streak = c \<rparr>
                                else None
                    | None \<Rightarrow> None)
              (players db),
          longestStreaks = longest \<rparr>)"

section \<open>Best-of-N session\<close>

text \<open>\<open>const winsNeeded = Math.ceil(activeSession.bestOf / 2)\<close>.\<close>

definition winsNeeded :: "ActiveSession \<Rightarrow> int" where
  "winsNeeded activeSession = \<lceil>real_of_int (s_bestOf activeSession) / 2\<rceil>"

text \<open>
  The two predicates of the \<open>scores\<close> memo:
  \<open>m.goalsA !== null && m.goalsB !== null && m.goalsA > m.goalsB\<close> and its mirror image.
\<close>

definition slotWonByA :: "ActiveSessionMatch \<Rightarrow> bool" where
  "slotWonByA m = (case (a_goalsA m, a_goalsB m) of (Some ga, Some gb) \<Rightarrow> ga > gb | _ \<Rightarrow> False)"

definition slotWonByB :: "ActiveSessionMatch \<Rightarrow> bool" where
  "slotWonByB m = (case (a_goalsA m, a_goalsB m) of (Some ga, Some gb) \<Rightarrow> gb > ga | _ \<Rightarrow> False)"

definition teamAWins :: "ActiveSessionMatch list \<Rightarrow> int" where
  "teamAWins schedule = int (length (filter slotWonByA schedule))"

definition teamBWins :: "ActiveSessionMatch list \<Rightarrow> int" where
  "teamBWins schedule = int (length (filter slotWonByB schedule))"

datatype Side = A | B

text \<open>
  \<open>updateScore(matchId, team, value)\<close> on the component's \<open>schedule\<close> state. \<open>parseInt\<close> is
  the platform's parser, \<open>parseInt(value, 10)\<close>, and is a parameter; the number input
  hands it the text of a number, and a text it could not read (\<open>NaN\<close>) is outside \<open>int\<close>.
\<close>

definition updateScore ::
  "(string \<Rightarrow> int) \<Rightarrow> ActiveSessionMatch list \<Rightarrow> string \<Rightarrow> Side \<Rightarrow> string \<Rightarrow> ActiveSessionMatch list" where
  "updateScore parseInt schedule matchId team val =
     map (\<lambda>match.
            if a_id match = matchId
            then (let score = (if val = [] then None else Some (parseInt val))
                  in case team of A \<Rightarrow> match\<lparr> a_goalsA := score \<rparr>
                                | B \<Rightarrow> match\<lparr> a_goalsB := score \<rparr>)
            else match)
         schedule"

section \<open>Session finalizer\<close>

text \<open>
  What \<open>finishSession\<close> takes from the outside world: the answer the user gives to
  \<open>window.confirm\<close>, the strings that successive calls of \<open>uid()\<close> return (call number 0 is
  the first), and \<open>new Date().toISOString()\<close>.
\<close>

record Env =
  confirmAnswer :: bool
  uid :: "nat \<Rightarrow> string"
  now :: string

definition winnerTeam :: "ActiveSession \<Rightarrow> ActiveSessionMatch list \<Rightarrow> SessionTeam option" where
  "winnerTeam activeSession schedule =
     (if teamAWins schedule \<ge> winsNeeded activeSession then elemAt (s_teams activeSession) 0
      else if teamBWins schedule \<ge> winsNeeded activeSession then elemAt (s_teams activeSession) 1
      else None)"

definition kingsOf :: "SessionTeam option \<Rightarrow> string list" where
  "kingsOf w = (case w of Some t \<Rightarrow> t_players t | None \<Rightarrow> [])"

text \<open>\<open>schedule.filter(m => m.goalsA !== null && m.goalsB !== null)\<close>, with both goals read.\<close>

definition filledSlots :: "ActiveSessionMatch list \<Rightarrow> (ActiveSessionMatch \<times> int \<times> int) list" where
  "filledSlots schedule =
     List.map_filter
       (\<lambda>m. case (a_goalsA m, a_goalsB m) of
               (Some ga, Some gb) \<Rightarrow> Some (m, ga, gb)
             | _ \<Rightarrow> None)
       schedule"

text \<open>
  \<open>sessionId\<close> is the first \<open>uid()\<close> of the call; the \<open>map\<close> over the filled slots then
  calls \<open>uid()\<close> once per slot, in order.
\<close>

definition newMatches :: "Env \<Rightarrow> ActiveSession \<Rightarrow> ActiveSessionMatch list \<Rightarrow> Match list" where
  "newMatches env activeSession schedule =
     map (\<lambda>(i, (m, ga, gb)).
            \<lparr> m_id = uid env i, m_dateISO = now env, m_mode = s_mode activeSession,
              m_teamAName = t_name (a_teamA m), m_teamBName = t_name (a_teamB m),
              m_teamAPlayers = t_players (a_teamA m), m_teamBPlayers = t_players (a_teamB m),
              m_goalsA = ga, m_goalsB = gb, m_enteredBy = ''Session'',
              m_sessionId = Some (uid env 0) \<rparr>)
         (enumerate 1 (filledSlots schedule))"

definition newKingSession :: "Env \<Rightarrow> ActiveSession \<Rightarrow> ActiveSessionMatch list \<Rightarrow> KingSession" where
  "newKingSession env activeSession schedule =
     \<lparr> k_id = uid env 0, k_dateISO = now env,
       k_kings = kingsOf (winnerTeam activeSession schedule),
       k_bestOf = s_bestOf activeSession, k_mode = s_mode activeSession,
       k_kingEnteredBy = Some ''Session'' \<rparr>"

text \<open>
  The single \<open>setDb(prev => ({ ...prev, matches: [...], kingSessions: [...] }))\<close>.
\<close>

definition saveSession :: "Env \<Rightarrow> ActiveSession \<Rightarrow> ActiveSessionMatch list \<Rightarrow> DB \<Rightarrow> DB" where
  "saveSession env activeSession schedule prev =
     prev\<lparr> matches := matches prev @ newMatches env activeSession schedule,
           kingSessions := kingSessions prev @ [newKingSession env activeSession schedule] \<rparr>"

text \<open>
  \<open>finishSession(isConfirmed)\<close>: the result is the snapshot and the active session after
  the call. An early \<open>return\<close> changes neither; otherwise the snapshot is saved and
  \<open>setActiveSession(null)\<close> ends the session.
\<close>

definition finishSession ::
  "Env \<Rightarrow> ActiveSession \<Rightarrow> ActiveSessionMatch list \<Rightarrow> bool \<Rightarrow> DB \<Rightarrow> DB \<times> ActiveSession option" where
  "finishSession env activeSession schedule isConfirmed db =
     (if \<not> isConfirmed
         \<and> (teamAWins schedule < winsNeeded activeSession
            \<and> teamBWins schedule < winsNeeded activeSession)
         \<and> \<not> confirmAnswer env
      then (db, Some activeSession)
      else (saveSession env activeSession schedule db, None))"

text \<open>
  The effect that runs after a render in which \<open>scores\<close> changed:
  \<open>if (scores.teamAWins >= winsNeeded || scores.teamBWins >= winsNeeded) finishSession(true)\<close>.
\<close>

definition autoFinish ::
  "Env \<Rightarrow> ActiveSession \<Rightarrow> ActiveSessionMatch list \<Rightarrow> DB \<Rightarrow> DB \<times> ActiveSession option" where
  "autoFinish env activeSession schedule db =
     (if teamAWins schedule \<ge> winsNeeded activeSession
         \<or> teamBWins schedule \<ge> winsNeeded activeSession
      then finishSession env activeSession schedule True db
      else (db, Some activeSession))"

text \<open>A score typed into a slot: the new schedule, and what the effect makes of it.\<close>

definition scoreEntered ::
  "Env \<Rightarrow> (string \<Rightarrow> int) \<Rightarrow> ActiveSession \<Rightarrow> ActiveSessionMatch list \<Rightarrow> DB
     \<Rightarrow> string \<Rightarrow> Side \<Rightarrow> string \<Rightarrow> ActiveSessionMatch list \<times> DB \<times> ActiveSession option" where
  "scoreEntered env parseInt activeSession schedule db matchId team val =
     (let schedule' = updateScore parseInt schedule matchId team val
      in (schedule', autoFinish env activeSession schedule' db))"

section \<open>Export and import of the snapshot\<close>

text \<open>
  \<open>ExportButton\<close> writes \<open>JSON.stringify(db, null, 2)\<close> into the file it offers for
  download, and \<open>ImportButton\<close> hands the text of the chosen file to \<open>JSON.parse\<close>. The
  snapshot travels as a JavaScript value, so it is modelled as one: a number is an \<open>int\<close>
  as everywhere in this theory, a string is a list of 8-bit characters, and an object
  lists its properties in the order in which they were created.
\<close>

datatype json =
    JNull
  | JBool bool
  | JNum int
  | JStr string
  | JArr "json list"
  | JObj "(string \<times> json) list"

text \<open>An object names each of its properties once, at every depth.\<close>

fun distinctKeys :: "json \<Rightarrow> bool" where
  "distinctKeys (JArr vs) = list_all distinctKeys vs"
| "distinctKeys (JObj kvs) =
     (distinct (map fst kvs) \<and> list_all (\<lambda>kv. distinctKeys (snd kv)) kvs)"
| "distinctKeys v = True"

subsection \<open>Writing JSON text\<close>

text \<open>
  Modelled from the spec: the export is "a direct one-to-one encoding of the in-memory
  structure" (section 6). The encoder is the platform's \<open>JSON.stringify\<close>, which is not
  part of the repository; the definitions below follow its description in ECMAScript
  (\<open>QuoteJSONString\<close>, \<open>SerializeJSONProperty\<close>, \<open>SerializeJSONObject\<close>,
  \<open>SerializeJSONArray\<close>) for the call \<open>JSON.stringify(value, null, 2)\<close>, whose gap is two
  spaces. An integer is written in decimal, with a minus sign when negative.
\<close>

definition digitChar :: "nat \<Rightarrow> char" where
  "digitChar n = char_of (48 + n)"

function showNat :: "nat \<Rightarrow> string" where
  "showNat n = (if n < 10 then [digitChar n] else showNat (n div 10) @ [digitChar (n mod 10)])"
  by pat_completeness auto

termination
  by (relation "measure (\<lambda>n. n)") auto

declare showNat.simps [simp del]

definition showInt :: "int \<Rightarrow> string" where
  "showInt i = (if i < 0 then CHR ''-'' # showNat (nat (- i)) else showNat (nat i))"

text \<open>
  Inside a string the quote and the backslash are escaped, the five control characters
  with a short form take it, any other character below \<open>0x20\<close> becomes \<open>\u00XX\<close> in
  lower-case hexadecimal, and every other character stands for itself.
\<close>

definition hexDigit :: "nat \<Rightarrow> char" where
  "hexDigit n = (if n < 10 then char_of (48 + n) else char_of (87 + n))"

definition escChar :: "char \<Rightarrow> string" where
  "escChar c =
     (if c = CHR 0x08 then [CHR 0x5C, CHR ''b'']
      else if c = CHR 0x09 then [CHR 0x5C, CHR ''t'']
      else if c = CHR 0x0A then [CHR 0x5C, CHR ''n'']
      else if c = CHR 0x0C then [CHR 0x5C, CHR ''f'']
      else if c = CHR 0x0D then [CHR 0x5C, CHR ''r'']
      else if c = CHR 0x22 then [CHR 0x5C, CHR 0x22]
      else if c = CHR 0x5C then [CHR 0x5C, CHR 0x5C]
      else if (of_char c :: nat) < 32
        then [CHR 0x5C, CHR ''u'', CHR ''0'', CHR ''0'',
              hexDigit (of_char c div 16), hexDigit (of_char c mod 16)]
      else [c])"

definition QuoteJSONString :: "string \<Rightarrow> string" where
  "QuoteJSONString s = CHR 0x22 # concat (map escChar s) @ [CHR 0x22]"

text \<open>The pieces of an array or an object, with the separator between neighbours.\<close>

fun join :: "string \<Rightarrow> string list \<Rightarrow> string" where
  "join sep [] = []"
| "join sep [x] = x"
| "join sep (x # y # ys) = x @ sep @ join sep (y # ys)"

definition gap :: string where
  "gap = ''  ''"

text \<open>
  An empty array is \<open>[]\<close> and an empty object \<open>{}\<close>. Otherwise the elements stand one per
  line, indented by one gap more than the enclosing value, separated by a comma and
  closed on a line of its own; a property is its quoted key, a colon, a space and its
  value.
\<close>

fun SerializeJSONProperty :: "string \<Rightarrow> json \<Rightarrow> string" where
  "SerializeJSONProperty indent JNull = ''null''"
| "SerializeJSONProperty indent (JBool b) = (if b then ''true'' else ''false'')"
| "SerializeJSONProperty indent (JNum n) = showInt n"
| "SerializeJSONProperty indent (JStr s) = QuoteJSONString s"
| "SerializeJSONProperty indent (JArr vs) =
     (if vs = [] then ''[]''
      else ''['' @ [CHR 0x0A] @ (indent @ gap)
           @ join ('','' @ [CHR 0x0A] @ (indent @ gap))
                  (map (SerializeJSONProperty (indent @ gap)) vs)
           @ [CHR 0x0A] @ indent @ '']'')"
| "SerializeJSONProperty indent (JObj kvs) =
     (if kvs = [] then ''{}''
      else ''{'' @ [CHR 0x0A] @ (indent @ gap)
           @ join ('','' @ [CHR 0x0A] @ (indent @ gap))
                  (map (\<lambda>kv. QuoteJSONString (fst kv) @ '': ''
                               @ SerializeJSONProperty (indent @ gap) (snd kv)) kvs)
           @ [CHR 0x0A] @ indent @ ''}'')"

definition JSON_stringify :: "json \<Rightarrow> string" where
  "JSON_stringify v = SerializeJSONProperty [] v"

subsection \<open>Reading JSON text\<close>

text \<open>
  Modelled from the spec: the import "parses it into the Snapshot shape" and checks "only
  that it parses as well-formed structured data" (section 6). The parser is the
  platform's \<open>JSON.parse\<close>, which is not part of the repository; the definitions below
  follow the JSON grammar that ECMAScript prescribes for it. \<open>None\<close> is the \<open>SyntaxError\<close>
  that \<open>JSON.parse\<close> throws. Two kinds of text that the platform accepts lie outside the
  data of this theory and are refused: a number with a fraction or an exponent, and a
  \<open>\uXXXX\<close> escape above \<open>00FF\<close>.
\<close>

definition isWs :: "char \<Rightarrow> bool" where
  "isWs c = (c = CHR 0x20 \<or> c = CHR 0x09 \<or> c = CHR 0x0A \<or> c = CHR 0x0D)"

fun skipWs :: "string \<Rightarrow> string" where
  "skipWs [] = []"
| "skipWs (c # cs) = (if isWs c then skipWs cs else c # cs)"

definition isDigit :: "char \<Rightarrow> bool" where
  "isDigit c = (48 \<le> (of_char c :: nat) \<and> (of_char c :: nat) < 58)"

definition digitVal :: "char \<Rightarrow> nat" where
  "digitVal c = of_char c - 48"

definition readNat :: "string \<Rightarrow> nat" where
  "readNat ds = foldl (\<lambda>a c. a * 10 + digitVal c) 0 ds"

text \<open>
  A number: an optional minus sign and decimal digits, without a leading zero unless the
  number is the single digit 0.
\<close>

definition parseNumber :: "string \<Rightarrow> (json \<times> string) option" where
  "parseNumber s =
     (let neg = (case s of c # r \<Rightarrow> c = CHR ''-'' | [] \<Rightarrow> False);
          t = (if neg then tl s else s);
          ds = takeWhile isDigit t;
          rest = dropWhile isDigit t
      in if ds = [] then None
         else if length ds > 1 \<and> hd ds = CHR ''0'' then None
         else if (case rest of c # r \<Rightarrow> c = CHR ''.'' \<or> c = CHR ''e'' \<or> c = CHR ''E'' | [] \<Rightarrow> False)
           then None
         else Some (JNum (if neg then - int (readNat ds) else int (readNat ds)), rest))"

text \<open>The words \<open>true\<close>, \<open>false\<close> and \<open>null\<close>.\<close>

fun stripPrefix :: "string \<Rightarrow> string \<Rightarrow> string option" where
  "stripPrefix [] s = Some s"
| "stripPrefix (p # ps) [] = None"
| "stripPrefix (p # ps) (c # cs) = (if p = c then stripPrefix ps cs else None)"

definition literal :: "string \<Rightarrow> json \<Rightarrow> string \<Rightarrow> (json \<times> string) option" where
  "literal word v s = (case stripPrefix word s of None \<Rightarrow> None | Some r \<Rightarrow> Some (v, r))"

text \<open>
  A string, read from behind its opening quote up to the closing one. A backslash
  introduces one of the eight short escapes or \<open>u\<close> and four hexadecimal digits; a bare
  character below \<open>0x20\<close> is an error.
\<close>

definition hexVal :: "char \<Rightarrow> nat option" where
  "hexVal c =
     (let k = (of_char c :: nat)
      in if 48 \<le> k \<and> k < 58 then Some (k - 48)
         else if 97 \<le> k \<and> k < 103 then Some (k - 87)
         else if 65 \<le> k \<and> k < 71 then Some (k - 55)
         else None)"

definition hex4 :: "char \<Rightarrow> char \<Rightarrow> char \<Rightarrow> char \<Rightarrow> nat option" where
  "hex4 a b c d =
     (case (hexVal a, hexVal b, hexVal c, hexVal d) of
        (Some w, Some x, Some y, Some z) \<Rightarrow> Some (((w * 16 + x) * 16 + y) * 16 + z)
      | _ \<Rightarrow> None)"

definition unescape :: "char \<Rightarrow> char option" where
  "unescape e =
     (if e = CHR ''b'' then Some (CHR 0x08)
      else if e = CHR ''t'' then Some (CHR 0x09)
      else if e = CHR ''n'' then Some (CHR 0x0A)
      else if e = CHR ''f'' then Some (CHR 0x0C)
      else if e = CHR ''r'' then Some (CHR 0x0D)
      else if e = CHR 0x22 then Some (CHR 0x22)
      else if e = CHR 0x5C then Some (CHR 0x5C)
      else if e = CHR ''/'' then Some (CHR ''/'')
      else None)"

fun parseStr :: "string \<Rightarrow> (string \<times> string) option" where
  "parseStr [] = None"
| "parseStr (c # cs) =
     (if c = CHR 0x22 then Some ([], cs)
      else if c = CHR 0x5C then
        (case cs of
           [] \<Rightarrow> None
         | e # r \<Rightarrow>
             if e = CHR ''u'' then
               (case r of
                  h1 # h2 # h3 # h4 # r' \<Rightarrow>
                    (case hex4 h1 h2 h3 h4 of
                       None \<Rightarrow> None
                     | Some k \<Rightarrow>
                         if k < 256
                         then (case parseStr r' of
                                 None \<Rightarrow> None
                               | Some (s, t) \<Rightarrow> Some (char_of k # s, t))
                         else None)
                | _ \<Rightarrow> None)
             else (case unescape e of
                     None \<Rightarrow> None
                   | Some x \<Rightarrow>
                       (case parseStr r of
                          None \<Rightarrow> None
                        | Some (s, t) \<Rightarrow> Some (x # s, t))))
      else if (of_char c :: nat) < 32 then None
      else (case parseStr cs of
              None \<Rightarrow> None
            | Some (s, t) \<Rightarrow> Some (c # s, t)))"

text \<open>
  A value, the elements of an array after its opening bracket, and the members of an
  object after its opening brace. White space may stand before and after every token.
  A key that occurs again replaces the value of its first occurrence, as setting a
  property does. The first argument bounds the depth of the calls; \<open>JSON_parse\<close> passes
  the length of the text, and \<open>fuel_enough\<close> below shows that no text needs more. After
  the value only white space may follow.
\<close>

fun parseValue :: "nat \<Rightarrow> string \<Rightarrow> (json \<times> string) option"
and parseElements :: "nat \<Rightarrow> string \<Rightarrow> (json list \<times> string) option"
and parseMembers :: "nat \<Rightarrow> string \<Rightarrow> ((string \<times> json) list \<times> string) option"
where
  "parseValue 0 s = None"
| "parseValue (Suc n) s =
     (case skipWs s of
        [] \<Rightarrow> None
      | c # r \<Rightarrow>
          if c = CHR ''{'' then
            (case skipWs r of
               [] \<Rightarrow> None
             | d # r' \<Rightarrow>
                 if d = CHR ''}'' then Some (JObj [], r')
                 else (case parseMembers n (d # r') of
                         None \<Rightarrow> None
                       | Some (kvs, t) \<Rightarrow> Some (JObj (Map_new kvs), t)))
          else if c = CHR ''['' then
            (case skipWs r of
               [] \<Rightarrow> None
             | d # r' \<Rightarrow>
                 if d = CHR '']'' then Some (JArr [], r')
                 else (case parseElements n (d # r') of
                         None \<Rightarrow> None
                       | Some (vs, t) \<Rightarrow> Some (JArr vs, t)))
          else if c = CHR 0x22 then
            (case parseStr r of None \<Rightarrow> None | Some (str, t) \<Rightarrow> Some (JStr str, t))
          else if c = CHR ''t'' then literal ''true'' (JBool True) (c # r)
          else if c = CHR ''f'' then literal ''false'' (JBool False) (c # r)
          else if c = CHR ''n'' then literal ''null'' JNull (c # r)
          else parseNumber (c # r))"
| "parseElements 0 s = None"
| "parseElements (Suc n) s =
     (case parseValue n s of
        None \<Rightarrow> None
      | Some (v, r) \<Rightarrow>
          (case skipWs r of
             [] \<Rightarrow> None
           | c # r' \<Rightarrow>
               if c = CHR '','' then
                 (case parseElements n r' of
                    None \<Rightarrow> None
                  | Some (vs, t) \<Rightarrow> Some (v # vs, t))
               else if c = CHR '']'' then Some ([v], r')
               else None))"
| "parseMembers 0 s = None"
| "parseMembers (Suc n) s =
     (case skipWs s of
        [] \<Rightarrow> None
      | q # r \<Rightarrow>
          if q \<noteq> CHR 0x22 then None
          else (case parseStr r of
                  None \<Rightarrow> None
                | Some (k, r1) \<Rightarrow>
                    (case skipWs r1 of
                       [] \<Rightarrow> None
                     | colon # r2 \<Rightarrow>
                         if colon \<noteq> CHR '':'' then None
                         else (case parseValue n r2 of
                                 None \<Rightarrow> None
                               | Some (v, r3) \<Rightarrow>
                                   (case skipWs r3 of
                                      [] \<Rightarrow> None
                                    | c # r4 \<Rightarrow>
                                        if c = CHR '','' then
                                          (case parseMembers n r4 of
                                             None \<Rightarrow> None
                                           | Some (kvs, t) \<Rightarrow> Some ((k, v) # kvs, t))
                                        else if c = CHR ''}'' then Some ([(k, v)], r4)
                                        else None)))))"

definition JSON_parse :: "string \<Rightarrow> json option" where
  "JSON_parse text =
     (case parseValue (length text) text of
        None \<Rightarrow> None
      | Some (v, r) \<Rightarrow> if skipWs r = [] then Some v else None)"

subsection \<open>The snapshot as a value\<close>

text \<open>
  The object that stands for each record, with the properties in the order of the
  object literal that creates it: players in \<open>addPlayer\<close>, session matches and the
  KingSession in \<open>finishSession\<close>, hand-entered matches (which have no \<open>sessionId\<close>) in
  \<open>addMatch\<close>, violations in \<open>addViolation\<close>, the snapshot in \<open>App\<close>. An optional field
  that is absent is a property that is not there.
\<close>

definition themeName :: "ThemeKey \<Rightarrow> string" where
  "themeName t = (case t of FCB \<Rightarrow> ''FCB'' | BVB \<Rightarrow> ''BVB'' | FALCO \<Rightarrow> ''FALCO'')"

definition modeName :: "Mode \<Rightarrow> string" where
  "modeName m = (case m of OneVsOne \<Rightarrow> ''1v1'' | TwoVsTwo \<Rightarrow> ''2v2'')"

definition violationName :: "ViolationType \<Rightarrow> string" where
  "violationName t =
     (case t of
        unerlaubt_pausiert \<Rightarrow> ''unerlaubt_pausiert''
      | durch_den_bildschirm_gelaufen \<Rightarrow> ''durch_den_bildschirm_gelaufen''
      | koenigstitel_nicht_erwaehnt \<Rightarrow> ''koenigstitel_nicht_erwaehnt''
      | kein_getraenk_erhalten \<Rightarrow> ''kein_getraenk_erhalten''
      | sonderrecht_des_hauens_ignoriert \<Rightarrow> ''sonderrecht_des_hauens_ignoriert''
      | sonstiges \<Rightarrow> ''sonstiges'')"

definition jsPlayer :: "Player \<Rightarrow> json" where
  "jsPlayer p = JObj [(''id'', JStr (p_id p)), (''name'', JStr (p_name p))]"

definition jsMatch :: "Match \<Rightarrow> json" where
  "jsMatch m =
     (case m_sessionId m of
        Some sid \<Rightarrow>
          JObj [(''id'', JStr (m_id m)), (''dateISO'', JStr (m_dateISO m)),
                (''mode'', JStr (modeName (m_mode m))), (''sessionId'', JStr sid),
                (''teamAPlayers'', JArr (map JStr (m_teamAPlayers m))),
                (''teamBPlayers'', JArr (map JStr (m_teamBPlayers m))),
                (''goalsA'', JNum (m_goalsA m)), (''goalsB'', JNum (m_goalsB m)),
                (''teamAName'', JStr (m_teamAName m)), (''teamBName'', JStr (m_teamBName m)),
                (''enteredBy'', JStr (m_enteredBy m))]
      | None \<Rightarrow>
          JObj [(''id'', JStr (m_id m)), (''dateISO'', JStr (m_dateISO m)),
                (''mode'', JStr (modeName (m_mode m))),
                (''teamAName'', JStr (m_teamAName m)), (''teamBName'', JStr (m_teamBName m)),
                (''teamAPlayers'', JArr (map JStr (m_teamAPlayers m))),
                (''teamBPlayers'', JArr (map JStr (m_teamBPlayers m))),
                (''goalsA'', JNum (m_goalsA m)), (''goalsB'', JNum (m_goalsB m)),
                (''enteredBy'', JStr (m_enteredBy m))])"

definition jsKingSession :: "KingSession \<Rightarrow> json" where
  "jsKingSession s =
     JObj ([(''id'', JStr (k_id s)), (''dateISO'', JStr (k_dateISO s)),
            (''kings'', JArr (map JStr (k_kings s)))]
           @ (case k_kingEnteredBy s of Some e \<Rightarrow> [(''kingEnteredBy'', JStr e)] | None \<Rightarrow> [])
           @ [(''bestOf'', JNum (k_bestOf s)), (''mode'', JStr (modeName (k_mode s)))])"

definition jsViolation :: "Violation \<Rightarrow> json" where
  "jsViolation v =
     JObj [(''id'', JStr (v_id v)), (''dateISO'', JStr (v_dateISO v)),
           (''playerId'', JStr (v_playerId v)), (''type'', JStr (violationName (v_type v))),
           (''comment'', JStr (v_comment v)), (''enteredBy'', JStr (v_enteredBy v))]"

definition jsDB :: "DB \<Rightarrow> json" where
  "jsDB db =
     JObj [(''theme'', JStr (themeName (theme db))),
           (''players'', JArr (map jsPlayer (players db))),
           (''matches'', JArr (map jsMatch (matches db))),
           (''kingSessions'', JArr (map jsKingSession (kingSessions db))),
           (''violations'', JArr (map jsViolation (violations db)))]"

subsection \<open>\<open>ExportButton\<close> and \<open>ImportButton\<close>\<close>

text \<open>
  \<open>download\<close> puts \<open>JSON.stringify(db, null, 2)\<close> into the file; the file's text is that
  string.
\<close>

definition ExportButton_download :: "json \<Rightarrow> string" where
  "ExportButton_download db = JSON_stringify db"






section \<open>Predicates used in the proofs\<close>

text \<open>An accumulator whose wins, draws and losses add up to its matches played.\<close>

definition acct :: "Stat \<Rightarrow> bool" where
  "acct s \<longleftrightarrow> st_wins s + st_draws s + st_losses s = st_played s"

text \<open>
  A comparator that is a total preorder (any two elements compare one way or the other,
  and the order is transitive), which is what \<open>sort\<close> asks of its argument.
\<close>

definition consistentComparator :: "('a \<Rightarrow> 'a \<Rightarrow> int) \<Rightarrow> bool" where
  "consistentComparator cmp =
     ((\<forall>a b. cmp a b \<le> 0 \<or> cmp b a \<le> 0)
      \<and> (\<forall>a b c. cmp a b \<le> 0 \<longrightarrow> cmp b c \<le> 0 \<longrightarrow> cmp a c \<le> 0))"

text \<open>Both streak objects have an entry for the key.\<close>

definition present :: "Streaks \<Rightarrow> string \<Rightarrow> bool" where
  "present st k = (fst st k \<noteq> None \<and> snd st k \<noteq> None)"

text \<open>Both entries are there and the running streak does not exceed the longest one.\<close>

definition settled :: "Streaks \<Rightarrow> string \<Rightarrow> bool" where
  "settled st k = (case (fst st k, snd st k) of (Some l, Some c) \<Rightarrow> c \<le> l | _ \<Rightarrow> False)"

text \<open>A session that crowned somebody: its \<open>kings\<close> list is not empty.\<close>

definition crowned :: "KingSession \<Rightarrow> bool" where
  "crowned s = (k_kings s \<noteq> [])"

text \<open>The filter of \<open>finishSession\<close>: \<open>m.goalsA !== null && m.goalsB !== null\<close>.\<close>

definition bothFilled :: "ActiveSessionMatch \<Rightarrow> bool" where
  "bothFilled m = (a_goalsA m \<noteq> None \<and> a_goalsB m \<noteq> None)"

text \<open>A text of white space only; a text that cannot continue a number.\<close>

definition wsOnly :: "string \<Rightarrow> bool" where
  "wsOnly w = list_all isWs w"




text \<open>
  A parser is adequate at a depth bound when every result it gives there consumes some
  text and is given again at every bound that is at least the number of characters
  consumed.
\<close>

definition adequate :: "(nat \<Rightarrow> string \<Rightarrow> ('a \<times> string) option) \<Rightarrow> nat \<Rightarrow> bool" where
  "adequate f N =
     (\<forall>s x r. f N s = Some (x, r) \<longrightarrow>
        length r < length s \<and> (\<forall>n. length s - length r \<le> n \<longrightarrow> f n s = Some (x, r)))"

section \<open>Sample data for the worked examples\<close>

definition demoPlayers :: "Player list" where
  "demoPlayers =
     [\<lparr> p_id = ''p1'', p_name = ''Amy'' \<rparr>, \<lparr> p_id = ''p2'', p_name = ''Bob'' \<rparr>,
      \<lparr> p_id = ''p3'', p_name = ''Cy'' \<rparr>, \<lparr> p_id = ''p4'', p_name = ''Zed'' \<rparr>]"

definition demoMatch :: "string \<Rightarrow> string list \<Rightarrow> string list \<Rightarrow> int \<Rightarrow> int \<Rightarrow> Match" where
  "demoMatch i as bs ga gb =
     \<lparr> m_id = i, m_dateISO = ''2024-01-01T00:00:00.000Z'', m_mode = OneVsOne,
       m_teamAName = ''Team A'', m_teamBName = ''Team B'',
       m_teamAPlayers = as, m_teamBPlayers = bs, m_goalsA = ga, m_goalsB = gb,
       m_enteredBy = ''Amy'', m_sessionId = None \<rparr>"

text \<open>Zed beats Bob 5:3, then Amy beats Cy 3:1.\<close>

definition demoMatches :: "Match list" where
  "demoMatches = [demoMatch ''m1'' [''p4''] [''p2''] 5 3, demoMatch ''m2'' [''p1''] [''p3''] 3 1]"

text \<open>Zed beats Bob 3:1 and Amy beats Cy 3:1: two pairs of rows tied on every number.\<close>

definition demoMatches2 :: "Match list" where
  "demoMatches2 = [demoMatch ''m1'' [''p4''] [''p2''] 3 1, demoMatch ''m2'' [''p1''] [''p3''] 3 1]"

text \<open>
  Stand-ins for the platform functions in the examples: \<open>isoTime\<close> orders the strings
  that \<open>toISOString()\<close> produces (all of one length) as time orders them, and \<open>decimal\<close>
  reads a string of digits.
\<close>

definition isoTime :: "string \<Rightarrow> int" where
  "isoTime s = foldl (\<lambda>acc c. acc * 256 + int (of_char c)) 0 s"

definition decimal :: "string \<Rightarrow> int" where
  "decimal s = foldl (\<lambda>acc c. acc * 10 + (int (of_char c) - 48)) 0 s"

text \<open>Three finished series, stored out of order: Amy wins twice, then Bob.\<close>

definition demoKing :: "string \<Rightarrow> string \<Rightarrow> string list \<Rightarrow> KingSession" where
  "demoKing i date kings =
     \<lparr> k_id = i, k_dateISO = date, k_kings = kings, k_bestOf = 3, k_mode = OneVsOne,
       k_kingEnteredBy = Some ''Session'' \<rparr>"

definition demoKingSessions :: "KingSession list" where
  "demoKingSessions =
     [demoKing ''k3'' ''2024-01-03T20:00:00.000Z'' [''p2''],
      demoKing ''k1'' ''2024-01-01T20:00:00.000Z'' [''p1''],
      demoKing ''k2'' ''2024-01-02T20:00:00.000Z'' [''p1'']]"

definition demoDB :: DB where
  "demoDB = \<lparr> theme = FALCO, players = demoPlayers, matches = demoMatches,
              kingSessions = demoKingSessions, violations = [] \<rparr>"

text \<open>
  A best-of-3 between Amy and Bob in which Amy has taken the first and the third slot;
  the second slot is still empty.
\<close>

definition demoTeamA :: SessionTeam where
  "demoTeamA = \<lparr> t_id = ''t1'', t_name = ''Amy'', t_players = [''p1''] \<rparr>"

definition demoTeamB :: SessionTeam where
  "demoTeamB = \<lparr> t_id = ''t2'', t_name = ''Bob'', t_players = [''p2''] \<rparr>"

definition demoSlot :: "string \<Rightarrow> int option \<Rightarrow> int option \<Rightarrow> ActiveSessionMatch" where
  "demoSlot i ga gb =
     \<lparr> a_id = i, a_teamA = demoTeamA, a_teamB = demoTeamB, a_goalsA = ga, a_goalsB = gb \<rparr>"

definition demoSession :: ActiveSession where
  "demoSession =
     \<lparr> s_teams = [demoTeamA, demoTeamB],
       s_schedule = [demoSlot ''s1'' None None, demoSlot ''s2'' None None, demoSlot ''s3'' None None],
       s_bestOf = 3, s_mode = OneVsOne \<rparr>"

definition demoSchedule :: "ActiveSessionMatch list" where
  "demoSchedule =
     [demoSlot ''s1'' (Some 2) (Some 1), demoSlot ''s2'' None None, demoSlot ''s3'' (Some 3) (Some 0)]"

definition demoEnv :: Env where
  "demoEnv = \<lparr> confirmAnswer = False, uid = (\<lambda>n. ''u'' @ replicate n CHR ''x''),
               now = ''2024-02-02T20:00:00.000Z'' \<rparr>"

section \<open>Facts about the map\<close>

lemma map_of_Map_set: "map_of (Map_set k v mp) = (map_of mp)(k \<mapsto> v)"
  by (induction mp) (auto simp: fun_eq_iff)

lemma set_Map_set: "set (Map_set k v mp) \<subseteq> insert (k, v) (set mp)"
  by (induction mp) (auto split: if_splits)

lemma keys_Map_set:
  "map fst (Map_set k v mp) = (if k \<in> fst ` set mp then map fst mp else map fst mp @ [k])"
  by (induction mp) force+

section \<open>Standings: invariants of the aggregation loop\<close>

lemma acct_creditA: "acct s \<Longrightarrow> acct (creditA m s)"
  by (simp add: acct_def creditA_def Let_def)

lemma acct_creditB: "acct s \<Longrightarrow> acct (creditB m s)"
  by (simp add: acct_def creditB_def Let_def)

lemma Map_set_all: "\<forall>e \<in> set mp. P e \<Longrightarrow> P (k, v) \<Longrightarrow> \<forall>e \<in> set (Map_set k v mp). P e"
  using set_Map_set [of k v mp] by auto

lemma Map_get_in: "Map_get mp k = Some v \<Longrightarrow> (k, v) \<in> set mp"
  by (simp add: Map_get_def map_of_SomeD)

lemma creditPlayer_all:
  assumes "\<forall>e \<in> set mp. P e" and "\<And>s. P (pid, s) \<Longrightarrow> P (pid, credit s)"
  shows "\<forall>e \<in> set (creditPlayer credit mp pid). P e"
proof (cases "Map_get mp pid")
  case None
  then show ?thesis using assms(1) by (simp add: creditPlayer_def)
next
  case (Some s)
  then have "(pid, s) \<in> set mp" by (rule Map_get_in)
  with assms(1) have "P (pid, s)" by blast
  then have "P (pid, credit s)" by (rule assms(2))
  with assms(1) have "\<forall>e \<in> set (Map_set pid (credit s) mp). P e" by (rule Map_set_all)
  then show ?thesis using Some by (simp add: creditPlayer_def)
qed

lemma foldl_creditPlayer_all:
  assumes "\<And>pid s. P (pid, s) \<Longrightarrow> P (pid, credit s)"
  shows "\<forall>e \<in> set mp. P e \<Longrightarrow> \<forall>e \<in> set (foldl (creditPlayer credit) mp pids). P e"
proof (induction pids arbitrary: mp)
  case Nil
  then show ?case by simp
next
  case (Cons a pids)
  have "\<forall>e \<in> set (creditPlayer credit mp a). P e"
    using Cons.prems assms by (rule creditPlayer_all)
  then show ?case using Cons.IH by simp
qed

lemma creditMatch_all:
  assumes "\<And>pid s. P (pid, s) \<Longrightarrow> P (pid, creditA m s)"
      and "\<And>pid s. P (pid, s) \<Longrightarrow> P (pid, creditB m s)"
      and "\<forall>e \<in> set mp. P e"
  shows "\<forall>e \<in> set (creditMatch mp m). P e"
proof -
  have "\<forall>e \<in> set (foldl (creditPlayer (creditA m)) mp (m_teamAPlayers m)). P e"
    using assms(1) assms(3) by (rule foldl_creditPlayer_all)
  with assms(2) show ?thesis
    unfolding creditMatch_def by (rule foldl_creditPlayer_all)
qed

lemma Map_new_all_aux:
  "\<forall>e \<in> set es. P e \<Longrightarrow> \<forall>e \<in> set mp. P e \<Longrightarrow>
   \<forall>e \<in> set (foldl (\<lambda>mp (k, v). Map_set k v mp) mp es). P e"
proof (induction es arbitrary: mp)
  case Nil
  then show ?case by simp
next
  case (Cons a es)
  obtain k v where a: "a = (k, v)" by (cases a)
  have "\<forall>e \<in> set (Map_set k v mp). P e"
    using Cons.prems(2) by (rule Map_set_all) (use Cons.prems(1) a in simp)
  then show ?case using Cons.IH [of "Map_set k v mp"] Cons.prems(1) a by simp
qed

lemma Map_new_all: "\<forall>e \<in> set es. P e \<Longrightarrow> \<forall>e \<in> set (Map_new es). P e"
  unfolding Map_new_def by (rule Map_new_all_aux) auto

lemma accumulate_all:
  assumes "\<And>p. P (p_id p, newStat p)"
      and "\<And>m pid s. P (pid, s) \<Longrightarrow> P (pid, creditA m s)"
      and "\<And>m pid s. P (pid, s) \<Longrightarrow> P (pid, creditB m s)"
  shows "\<forall>e \<in> set (accumulate ps ms). P e"
proof -
  have init: "\<forall>e \<in> set (Map_new (map (\<lambda>p. (p_id p, newStat p)) ps)). P e"
    by (rule Map_new_all) (use assms(1) in fastforce)
  have "\<forall>e \<in> set mp. P e \<Longrightarrow> \<forall>e \<in> set (foldl creditMatch mp ms). P e" for mp
  proof (induction ms arbitrary: mp)
    case Nil
    then show ?case by simp
  next
    case (Cons m ms)
    have "\<forall>e \<in> set (creditMatch mp m). P e"
      using assms(2) assms(3) Cons.prems by (rule creditMatch_all)
    then show ?case using Cons.IH by simp
  qed
  then show ?thesis unfolding accumulate_def using init by blast
qed

lemma accumulate_acct:
  assumes "(k, s) \<in> set (accumulate ps ms)"
  shows "acct s"
proof -
  have "\<forall>e \<in> set (accumulate ps ms). acct (snd e)"
    by (rule accumulate_all) (simp_all add: acct_creditA acct_creditB, simp add: acct_def newStat_def)
  then show ?thesis using assms by fastforce
qed

lemma toStanding_laws:
  "acct s \<Longrightarrow>
     points (toStanding s) = 3 * wins (toStanding s) + draws (toStanding s)
   \<and> goalDiff (toStanding s) = goalsFor (toStanding s) - goalsAgainst (toStanding s)
   \<and> wins (toStanding s) + draws (toStanding s) + losses (toStanding s) = played (toStanding s)"
  by (simp add: toStanding_def Let_def acct_def)

text \<open>
  Claim C1. Every row that \<open>computeStandings\<close> returns, for any player list and any match
  list, satisfies the accounting identities: points are three per win plus one per draw,
  the goal difference is goals for minus goals against, and wins, draws and losses add
  up to the matches played.
\<close>

theorem computeStandings_accounting: "\<forall>r \<in> set (computeStandings ps ms).
     points r = 3 * wins r + draws r
   \<and> goalDiff r = goalsFor r - goalsAgainst r
   \<and> wins r + draws r + losses r = played r"
proof
  fix r
  assume "r \<in> set (computeStandings ps ms)"
  then obtain k s where ks: "(k, s) \<in> set (accumulate ps ms)" and r: "r = toStanding s"
    unfolding computeStandings_def Map_values_def by fastforce
  from ks have "acct s" by (rule accumulate_acct)
  then show "points r = 3 * wins r + draws r
   \<and> goalDiff r = goalsFor r - goalsAgainst r
   \<and> wins r + draws r + losses r = played r"
    unfolding r by (rule toStanding_laws)
qed


lemma demo_first_row:
  "hd (computeStandings demoPlayers demoMatches) \<in> set (computeStandings demoPlayers demoMatches)"
  by code_simp

theorem computeStandings_accounting_witness:
  "points (hd (computeStandings demoPlayers demoMatches))
     = 3 * wins (hd (computeStandings demoPlayers demoMatches))
       + draws (hd (computeStandings demoPlayers demoMatches))
   \<and> goalDiff (hd (computeStandings demoPlayers demoMatches))
     = goalsFor (hd (computeStandings demoPlayers demoMatches))
       - goalsAgainst (hd (computeStandings demoPlayers demoMatches))
   \<and> wins (hd (computeStandings demoPlayers demoMatches))
     + draws (hd (computeStandings demoPlayers demoMatches))
     + losses (hd (computeStandings demoPlayers demoMatches))
     = played (hd (computeStandings demoPlayers demoMatches))
   \<and> points (hd (computeStandings demoPlayers demoMatches)) = 3"
proof -
  have "points (hd (computeStandings demoPlayers demoMatches)) = 3" by code_simp
  then show ?thesis
    using computeStandings_accounting [of demoPlayers demoMatches] demo_first_row by blast
qed

lemma Map_get_Map_set: "Map_get (Map_set k v mp) q = (if q = k then Some v else Map_get mp q)"
  by (simp add: Map_get_def map_of_Map_set)

lemma Map_get_creditPlayer:
  "Map_get (creditPlayer c mp p) q = (if q = p then map_option c (Map_get mp p) else Map_get mp q)"
  by (cases "Map_get mp p") (simp_all add: creditPlayer_def Map_get_Map_set)

lemma Map_get_foldl_creditPlayer:
  "distinct pids \<Longrightarrow>
   Map_get (foldl (creditPlayer c) mp pids) q =
     (if q \<in> set pids then map_option c (Map_get mp q) else Map_get mp q)"
proof (induction pids arbitrary: mp)
  case Nil
  then show ?case by simp
next
  case (Cons p pids)
  then show ?case by (auto simp: Map_get_creditPlayer)
qed

lemma Map_get_creditMatch:
  assumes "distinct (m_teamAPlayers m @ m_teamBPlayers m)"
  shows "Map_get (creditMatch mp m) q =
     (if q \<in> set (m_teamAPlayers m) then map_option (creditA m) (Map_get mp q)
      else if q \<in> set (m_teamBPlayers m) then map_option (creditB m) (Map_get mp q)
      else Map_get mp q)"
  using assms by (auto simp: creditMatch_def Map_get_foldl_creditPlayer)

lemma accumulate_keyed:
  assumes "(k, s) \<in> set (accumulate ps ms)"
  shows "st_id s = k"
proof -
  have "\<forall>e \<in> set (accumulate ps ms). st_id (snd e) = fst e"
    by (rule accumulate_all) (simp_all add: newStat_def creditA_def creditB_def Let_def)
  then show ?thesis using assms by fastforce
qed

lemma find_toStanding:
  "\<forall>e \<in> set mp. st_id (snd e) = fst e \<Longrightarrow>
   find (\<lambda>r. id r = pid) (map toStanding (map snd mp)) = map_option toStanding (map_of mp pid)"
  by (induction mp) (auto simp: toStanding_def Let_def)

lemma standingOf_computeStandings:
  "standingOf pid (computeStandings ps ms) = map_option toStanding (Map_get (accumulate ps ms) pid)"
  unfolding standingOf_def computeStandings_def Map_values_def Map_get_def
  by (rule find_toStanding) (use accumulate_keyed in fastforce)

lemma Map_get_None_iff: "Map_get mp k = None \<longleftrightarrow> k \<notin> fst ` set mp"
  by (simp add: Map_get_def map_of_eq_None_iff)

lemma keys_creditPlayer: "fst ` set (creditPlayer c mp p) = fst ` set mp"
proof (cases "Map_get mp p")
  case None
  then show ?thesis by (simp add: creditPlayer_def)
next
  case (Some s)
  then have "p \<in> fst ` set mp" using Map_get_None_iff [of mp p] by simp
  then have "map fst (Map_set p (c s) mp) = map fst mp" by (simp add: keys_Map_set)
  then have "set (map fst (Map_set p (c s) mp)) = set (map fst mp)" by simp
  then show ?thesis using Some by (simp add: creditPlayer_def)
qed

lemma keys_foldl_creditPlayer: "fst ` set (foldl (creditPlayer c) mp pids) = fst ` set mp"
  by (induction pids arbitrary: mp) (simp_all add: keys_creditPlayer)

lemma keys_creditMatch: "fst ` set (creditMatch mp m) = fst ` set mp"
  by (simp add: creditMatch_def keys_foldl_creditPlayer)

lemma keys_foldl_creditMatch: "fst ` set (foldl creditMatch mp ms) = fst ` set mp"
  by (induction ms arbitrary: mp) (simp_all add: keys_creditMatch)

lemma keys_Map_set_set: "fst ` set (Map_set k v mp) = insert k (fst ` set mp)"
proof -
  have "set (map fst (Map_set k v mp)) = insert k (set (map fst mp))"
    unfolding keys_Map_set by auto
  then show ?thesis by simp
qed

lemma keys_Map_new_aux:
  "fst ` set (foldl (\<lambda>mp (k, v). Map_set k v mp) mp es) = fst ` set mp \<union> fst ` set es"
proof (induction es arbitrary: mp)
  case Nil
  then show ?case by simp
next
  case (Cons e es)
  obtain k v where e: "e = (k, v)" by (cases e)
  have "fst ` set (foldl (\<lambda>mp (k, v). Map_set k v mp) (Map_set k v mp) es)
          = fst ` set (Map_set k v mp) \<union> fst ` set es"
    by (rule Cons.IH)
  then show ?case unfolding e keys_Map_set_set by simp
qed

lemma keys_Map_new: "fst ` set (Map_new es) = fst ` set es"
  by (simp add: Map_new_def keys_Map_new_aux)

lemma keys_accumulate: "fst ` set (accumulate ps ms) = p_id ` set ps"
  by (simp add: accumulate_def keys_foldl_creditMatch keys_Map_new image_image)

lemma accumulate_roster: "pid \<in> p_id ` set ps \<Longrightarrow> \<exists>s. Map_get (accumulate ps ms) pid = Some s"
  using Map_get_None_iff [of "accumulate ps ms" pid] keys_accumulate [of ps ms] by auto

lemma accumulate_snoc: "accumulate ps (ms @ [m]) = creditMatch (accumulate ps ms) m"
  by (simp add: accumulate_def)

lemma toStanding_creditA:
  "played (toStanding (creditA m s)) = played (toStanding s) + 1
 \<and> goalsFor (toStanding (creditA m s)) = goalsFor (toStanding s) + m_goalsA m
 \<and> goalsAgainst (toStanding (creditA m s)) = goalsAgainst (toStanding s) + m_goalsB m
 \<and> wins (toStanding (creditA m s)) = wins (toStanding s) + (if m_goalsA m > m_goalsB m then 1 else 0)
 \<and> losses (toStanding (creditA m s)) = losses (toStanding s) + (if m_goalsB m > m_goalsA m then 1 else 0)
 \<and> draws (toStanding (creditA m s)) = draws (toStanding s) + (if m_goalsA m = m_goalsB m then 1 else 0)"
  by (simp add: toStanding_def creditA_def Let_def)

lemma toStanding_creditB:
  "played (toStanding (creditB m s)) = played (toStanding s) + 1
 \<and> goalsFor (toStanding (creditB m s)) = goalsFor (toStanding s) + m_goalsB m
 \<and> goalsAgainst (toStanding (creditB m s)) = goalsAgainst (toStanding s) + m_goalsA m
 \<and> wins (toStanding (creditB m s)) = wins (toStanding s) + (if m_goalsB m > m_goalsA m then 1 else 0)
 \<and> losses (toStanding (creditB m s)) = losses (toStanding s) + (if m_goalsA m > m_goalsB m then 1 else 0)
 \<and> draws (toStanding (creditB m s)) = draws (toStanding s) + (if m_goalsA m = m_goalsB m then 1 else 0)"
  by (simp add: toStanding_def creditB_def Let_def)

text \<open>
  Claim C5. Aggregating one more match \<open>m\<close>, whose two teams list each player at most
  once and share no player (the invariant of a Match, which \<open>canSave\<close> and the team picker
  of the session form enforce), changes the row of a roster player as follows. A player
  of team A has one more match played, \<open>goalsA\<close> more goals for and \<open>goalsB\<close> more against,
  and exactly one more win if \<open>goalsA > goalsB\<close>, one more loss if \<open>goalsB > goalsA\<close>, one
  more draw if the goals are equal, the other two tallies unchanged. A player of team B
  is credited the same way from the other side. The row of a player on neither team is
  unchanged.
\<close>

theorem computeStandings_credits_match:
  assumes inv: "distinct (m_teamAPlayers m @ m_teamBPlayers m)"
      and roster: "pid \<in> p_id ` set ps"
  shows "\<exists>r r'. standingOf pid (computeStandings ps ms) = Some r
        \<and> standingOf pid (computeStandings ps (ms @ [m])) = Some r'
        \<and> (pid \<in> set (m_teamAPlayers m) \<longrightarrow>
               played r' = played r + 1
             \<and> goalsFor r' = goalsFor r + m_goalsA m
             \<and> goalsAgainst r' = goalsAgainst r + m_goalsB m
             \<and> wins r' = wins r + (if m_goalsA m > m_goalsB m then 1 else 0)
             \<and> losses r' = losses r + (if m_goalsB m > m_goalsA m then 1 else 0)
             \<and> draws r' = draws r + (if m_goalsA m = m_goalsB m then 1 else 0))
        \<and> (pid \<in> set (m_teamBPlayers m) \<longrightarrow>
               played r' = played r + 1
             \<and> goalsFor r' = goalsFor r + m_goalsB m
             \<and> goalsAgainst r' = goalsAgainst r + m_goalsA m
             \<and> wins r' = wins r + (if m_goalsB m > m_goalsA m then 1 else 0)
             \<and> losses r' = losses r + (if m_goalsA m > m_goalsB m then 1 else 0)
             \<and> draws r' = draws r + (if m_goalsA m = m_goalsB m then 1 else 0))
        \<and> (pid \<notin> set (m_teamAPlayers m) \<and> pid \<notin> set (m_teamBPlayers m) \<longrightarrow> r' = r)"
proof -
  from roster obtain s where s: "Map_get (accumulate ps ms) pid = Some s"
    using accumulate_roster by blast
  have disj: "pid \<in> set (m_teamAPlayers m) \<Longrightarrow> pid \<notin> set (m_teamBPlayers m)"
    using inv by auto
  let ?s' = "if pid \<in> set (m_teamAPlayers m) then creditA m s
             else if pid \<in> set (m_teamBPlayers m) then creditB m s else s"
  have s': "Map_get (accumulate ps (ms @ [m])) pid = Some ?s'"
    unfolding accumulate_snoc Map_get_creditMatch [OF inv] using s by simp
  have r: "standingOf pid (computeStandings ps ms) = Some (toStanding s)"
    by (simp add: standingOf_computeStandings s)
  have r': "standingOf pid (computeStandings ps (ms @ [m])) = Some (toStanding ?s')"
    unfolding standingOf_computeStandings s' by simp
  have A: "pid \<in> set (m_teamAPlayers m) \<Longrightarrow> ?s' = creditA m s" by simp
  have B: "pid \<in> set (m_teamBPlayers m) \<Longrightarrow> ?s' = creditB m s" using disj by auto
  have N: "pid \<notin> set (m_teamAPlayers m) \<and> pid \<notin> set (m_teamBPlayers m) \<Longrightarrow> ?s' = s" by simp
  show ?thesis
    apply (rule exI [of _ "toStanding s"])
    apply (rule exI [of _ "toStanding ?s'"])
    apply (intro conjI impI)
    apply (rule r)
    apply (rule r')
    using A toStanding_creditA [of m s] apply simp_all[6]
    using B toStanding_creditB [of m s] apply simp_all[6]
    using N apply simp
    done
qed

theorem computeStandings_credits_match_witness:
  "distinct (m_teamAPlayers (demoMatch ''m2'' [''p1''] [''p3''] 3 1)
             @ m_teamBPlayers (demoMatch ''m2'' [''p1''] [''p3''] 3 1))
   \<and> ''p1'' \<in> p_id ` set demoPlayers
   \<and> ''p1'' \<in> set (m_teamAPlayers (demoMatch ''m2'' [''p1''] [''p3''] 3 1))
   \<and> wins (the (standingOf ''p1'' (computeStandings demoPlayers
              ([demoMatch ''m1'' [''p4''] [''p2''] 5 3] @ [demoMatch ''m2'' [''p1''] [''p3''] 3 1]))))
     = wins (the (standingOf ''p1'' (computeStandings demoPlayers
              [demoMatch ''m1'' [''p4''] [''p2''] 5 3]))) + 1"
proof -
  let ?m = "demoMatch ''m2'' [''p1''] [''p3''] 3 1"
  let ?ms = "[demoMatch ''m1'' [''p4''] [''p2''] 5 3]"
  have d: "distinct (m_teamAPlayers ?m @ m_teamBPlayers ?m)" by (simp add: demoMatch_def)
  have r: "''p1'' \<in> p_id ` set demoPlayers" by (simp add: demoPlayers_def)
  have a: "''p1'' \<in> set (m_teamAPlayers ?m)" by (simp add: demoMatch_def)
  have g: "m_goalsA ?m > m_goalsB ?m" by (simp add: demoMatch_def)
  from computeStandings_credits_match [OF d r, of ?ms] a g
  have "wins (the (standingOf ''p1'' (computeStandings demoPlayers (?ms @ [?m]))))
      = wins (the (standingOf ''p1'' (computeStandings demoPlayers ?ms))) + 1"
    by auto
  with d r a show ?thesis by blast
qed

section \<open>Display order\<close>

lemma set_insertBy: "set (insertBy cmp x xs) = insert x (set xs)"
  by (induction xs) auto

lemma sorted_insertBy:
  assumes "consistentComparator cmp"
  shows "sorted_wrt (\<lambda>a b. cmp a b \<le> 0) xs \<Longrightarrow> sorted_wrt (\<lambda>a b. cmp a b \<le> 0) (insertBy cmp x xs)"
proof (induction xs)
  case Nil
  then show ?case by simp
next
  case (Cons y ys)
  from assms have total: "\<And>a b. cmp a b \<le> 0 \<or> cmp b a \<le> 0"
    and trans: "\<And>a b c. cmp a b \<le> 0 \<Longrightarrow> cmp b c \<le> 0 \<Longrightarrow> cmp a c \<le> 0"
    unfolding consistentComparator_def by blast+
  show ?case
  proof (cases "cmp x y \<le> 0")
    case True
    have "\<forall>z \<in> set ys. cmp x z \<le> 0"
      using Cons.prems True trans by auto
    then show ?thesis using True Cons.prems by simp
  next
    case False
    then have "cmp y x \<le> 0" using total [of x y] by simp
    then have "\<forall>z \<in> set (insertBy cmp x ys). cmp y z \<le> 0"
      using Cons.prems by (simp add: set_insertBy)
    then show ?thesis using False Cons by simp
  qed
qed

lemma sorted_Array_sort:
  "consistentComparator cmp \<Longrightarrow> sorted_wrt (\<lambda>a b. cmp a b \<le> 0) (Array_sort cmp xs)"
  unfolding Array_sort_def by (induction xs) (simp_all add: sorted_insertBy)

lemma set_Array_sort: "set (Array_sort cmp xs) = set xs"
  unfolding Array_sort_def by (induction xs) (simp_all add: set_insertBy)

lemma length_insertBy: "length (insertBy cmp x xs) = Suc (length xs)"
  by (induction xs) auto

lemma length_Array_sort: "length (Array_sort cmp xs) = length xs"
  unfolding Array_sort_def by (induction xs) (simp_all add: length_insertBy)



lemma codeCompare_refl: "codeCompare a a = 0"
  by (induction a) simp_all







lemma demo_rows2:
  "map name (TableStats codeCompare (computeStandings demoPlayers demoMatches2)) = [''Amy'', ''Zed'', ''Bob'', ''Cy'']
  \<and> map points (TableStats codeCompare (computeStandings demoPlayers demoMatches2)) = [3, 3, 0, 0]
  \<and> map goalDiff (TableStats codeCompare (computeStandings demoPlayers demoMatches2)) = [2, 2, -2, -2]
  \<and> map goalsFor (TableStats codeCompare (computeStandings demoPlayers demoMatches2)) = [3, 3, 1, 1]"
  by code_simp



section \<open>King streaks\<close>

lemma present_playerStep: "present st k \<Longrightarrow> present (playerStep w st p) k"
  by (cases st) (auto simp: present_def playerStep_def split: option.splits)

lemma present_foldl_playerStep: "present st k \<Longrightarrow> present (foldl (playerStep w) st ps) k"
  by (induction ps arbitrary: st) (simp_all add: present_playerStep)

lemma present_sessionStep: "present st k \<Longrightarrow> present (sessionStep ps st s) k"
  by (simp add: sessionStep_def present_foldl_playerStep)

lemma present_foldl_sessionStep: "present st k \<Longrightarrow> present (foldl (sessionStep ps) st ss) k"
  by (induction ss arbitrary: st) (simp_all add: present_sessionStep)

lemma present_initStep: "present st k \<or> k = p_id p \<Longrightarrow> present (initStep st p) k"
  by (cases st) (auto simp: present_def initStep_def)

lemma present_init_aux:
  "present st k \<or> k \<in> p_id ` set ps \<Longrightarrow> present (foldl initStep st ps) k"
proof (induction ps arbitrary: st)
  case Nil
  then show ?case by simp
next
  case (Cons p ps)
  have "present (initStep st p) k \<or> k \<in> p_id ` set ps"
    using Cons.prems present_initStep [of st k p] by auto
  then show ?case using Cons.IH by simp
qed

lemma present_initStreaks: "k \<in> p_id ` set ps \<Longrightarrow> present (initStreaks ps) k"
  unfolding initStreaks_def by (rule present_init_aux) simp

lemma present_walkSessions: "k \<in> p_id ` set ps \<Longrightarrow> present (walkSessions ps ss) k"
  unfolding walkSessions_def by (intro present_foldl_sessionStep present_initStreaks)

lemma present_flushStep: "present st k \<Longrightarrow> present (flushStep st p) k"
  by (cases st) (auto simp: present_def flushStep_def split: option.splits)

lemma settled_flushStep: "settled st k \<Longrightarrow> settled (flushStep st p) k"
  by (cases st) (auto simp: settled_def flushStep_def split: option.splits)

lemma flushStep_settles: "present st (p_id p) \<Longrightarrow> settled (flushStep st p) (p_id p)"
  by (cases st) (auto simp: present_def settled_def flushStep_def split: option.splits)

lemma foldl_flushStep_settles:
  "settled st k \<or> (present st k \<and> k \<in> p_id ` set ps) \<Longrightarrow> settled (foldl flushStep st ps) k"
proof (induction ps arbitrary: st)
  case Nil
  then show ?case by simp
next
  case (Cons p ps)
  have "settled (flushStep st p) k \<or> (present (flushStep st p) k \<and> k \<in> p_id ` set ps)"
    using Cons.prems settled_flushStep [of st k p] flushStep_settles [of st p]
      present_flushStep [of st k p]
    by auto
  then show ?case using Cons.IH by simp
qed

lemma settled_finalStreaks:
  assumes "k \<in> p_id ` set (players db)"
  shows "settled (finalStreaks getTime db) k"
  unfolding finalStreaks_def
  using assms present_walkSessions [of k "players db"]
  by (intro foldl_flushStep_settles) simp

lemma settledD: "settled st k \<Longrightarrow> \<exists>l c. fst st k = Some l \<and> snd st k = Some c \<and> c \<le> l"
  by (auto simp: settled_def split: option.splits)

lemma map_filter_mem: "y \<in> set (List.map_filter f xs) \<Longrightarrow> \<exists>x \<in> set xs. f x = Some y"
  by (auto simp: List.map_filter_def)


text \<open>
  Claim C6. For every snapshot and every player of its roster, after the chronological
  walk and the final flush both streak objects hold a number for the player and the
  longest streak is at least the current streak. The \<open>longestStreaks\<close> that \<open>useKingInfo\<close>
  returns is that object, and every entry of \<open>currentKings\<close> carries the player's current
  streak, which is therefore at most the player's longest streak.
\<close>

theorem longest_streak_ge_current:
  "(\<forall>p \<in> set (players db).
      \<exists>l c. fst (finalStreaks getTime db) (p_id p) = Some l
          \<and> snd (finalStreaks getTime db) (p_id p) = Some c \<and> c \<le> l)
   \<and> longestStreaks (useKingInfo getTime db) = fst (finalStreaks getTime db)
   \<and> (\<forall>k \<in> set (currentKings (useKingInfo getTime db)).
        snd (finalStreaks getTime db) (ke_id k) = Some (ke_streak k)
      \<and> (\<exists>l. longestStreaks (useKingInfo getTime db) (ke_id k) = Some l \<and> ke_streak k \<le> l))"
proof -
  obtain lg cu where fs: "finalStreaks getTime db = (lg, cu)" by (cases "finalStreaks getTime db")
  have roster: "\<exists>l c. lg (p_id p) = Some l \<and> cu (p_id p) = Some c \<and> c \<le> l"
    if "p \<in> set (players db)" for p
  proof -
    from that have "settled (finalStreaks getTime db) (p_id p)" by (intro settled_finalStreaks) simp
    then show ?thesis unfolding fs by (auto dest: settledD)
  qed
  have L: "longestStreaks (useKingInfo getTime db) = lg"
    by (simp add: useKingInfo_def fs)
  have kings: "cu (ke_id k) = Some (ke_streak k) \<and> (\<exists>l. lg (ke_id k) = Some l \<and> ke_streak k \<le> l)"
    if k: "k \<in> set (currentKings (useKingInfo getTime db))" for k
  proof -
    from k obtain p where p: "p \<in> set (players db)"
      and kp: "(case cu (p_id p) of Some c \<Rightarrow> if c > 0
                  then Some \<lparr> ke_id = p_id p, ke_name = p_name p, ke_streak = c \<rparr> else None
                | None \<Rightarrow> None) = Some k"
      unfolding useKingInfo_def fs by (auto dest!: map_filter_mem)
    from kp have ids: "ke_id k = p_id p" and cur: "cu (p_id p) = Some (ke_streak k)"
      by (auto split: option.splits if_splits)
    from roster [OF p] cur ids show ?thesis by auto
  qed
  show ?thesis unfolding L unfolding fs using roster kings by simp
qed

theorem longest_streak_ge_current_witness:
  "hd (players demoDB) \<in> set (players demoDB)
   \<and> p_id (hd (players demoDB)) = ''p1''
   \<and> fst (finalStreaks isoTime demoDB) ''p1'' = Some 2
   \<and> snd (finalStreaks isoTime demoDB) ''p1'' = Some 0
   \<and> the (snd (finalStreaks isoTime demoDB) ''p1'') \<le> the (fst (finalStreaks isoTime demoDB) ''p1'')
   \<and> map ke_id (currentKings (useKingInfo isoTime demoDB)) = [''p2'']"
proof -
  have m: "hd (players demoDB) \<in> set (players demoDB)" by code_simp
  have i: "p_id (hd (players demoDB)) = ''p1''" by code_simp
  have l: "fst (finalStreaks isoTime demoDB) ''p1'' = Some 2" by code_simp
  have c: "snd (finalStreaks isoTime demoDB) ''p1'' = Some 0" by code_simp
  have k: "map ke_id (currentKings (useKingInfo isoTime demoDB)) = [''p2'']" by code_simp
  from longest_streak_ge_current [of demoDB isoTime] m i
  have "the (snd (finalStreaks isoTime demoDB) ''p1'') \<le> the (fst (finalStreaks isoTime demoDB) ''p1'')"
    by fastforce
  with m i l c k show ?thesis by blast
qed

lemma sessionStep_vacant: "\<not> crowned s \<Longrightarrow> sessionStep ps st s = st"
  by (simp add: sessionStep_def crowned_def)

lemma foldl_sessionStep_crowned:
  "foldl (sessionStep ps) st ss = foldl (sessionStep ps) st (filter crowned ss)"
  by (induction ss arbitrary: st) (simp_all add: sessionStep_vacant)

lemma filter_insertBy_drop: "\<not> P x \<Longrightarrow> filter P (insertBy cmp x xs) = filter P xs"
  by (induction xs) simp_all

lemma filter_insertBy_keep:
  assumes "consistentComparator cmp" and "P x"
  shows "sorted_wrt (\<lambda>a b. cmp a b \<le> 0) xs \<Longrightarrow>
         filter P (insertBy cmp x xs) = insertBy cmp x (filter P xs)"
proof (induction xs)
  case Nil
  then show ?case using assms(2) by simp
next
  case (Cons y ys)
  from assms(1) have trans: "\<And>a b c. cmp a b \<le> 0 \<Longrightarrow> cmp b c \<le> 0 \<Longrightarrow> cmp a c \<le> 0"
    unfolding consistentComparator_def by blast
  show ?case
  proof (cases "cmp x y \<le> 0")
    case True
    have below: "\<forall>z \<in> set (filter P ys). cmp x z \<le> 0"
      using Cons.prems True trans by auto
    have "insertBy cmp x (filter P ys) = x # filter P ys"
      using below by (cases "filter P ys") auto
    then show ?thesis using True assms(2) by simp
  next
    case False
    then show ?thesis using Cons by simp
  qed
qed

lemma filter_Array_sort:
  assumes "consistentComparator cmp"
  shows "filter P (Array_sort cmp xs) = Array_sort cmp (filter P xs)"
proof (induction xs)
  case Nil
  then show ?case by (simp add: Array_sort_def)
next
  case (Cons x xs)
  have step: "Array_sort cmp (x # xs) = insertBy cmp x (Array_sort cmp xs)"
    by (simp add: Array_sort_def)
  show ?case
  proof (cases "P x")
    case True
    have "filter P (insertBy cmp x (Array_sort cmp xs))
            = insertBy cmp x (filter P (Array_sort cmp xs))"
      using assms True sorted_Array_sort [OF assms] by (rule filter_insertBy_keep)
    then show ?thesis using True Cons.IH by (simp add: Array_sort_def)
  next
    case False
    then show ?thesis using Cons.IH by (simp add: Array_sort_def filter_insertBy_drop)
  qed
qed

lemma consistent_byTime:
  "consistentComparator (\<lambda>a b. getTime (k_dateISO a) - getTime (k_dateISO b))"
  by (auto simp: consistentComparator_def)

lemma walk_sortedSessions:
  "walkSessions ps (sortedSessions getTime db)
     = walkSessions ps
         (Array_sort (\<lambda>a b. getTime (k_dateISO a) - getTime (k_dateISO b))
            (filter crowned (kingSessions db)))"
  unfolding walkSessions_def sortedSessions_def
  by (subst foldl_sessionStep_crowned) (simp add: filter_Array_sort [OF consistent_byTime])

lemma finalStreaks_crowned:
  "filter crowned (kingSessions db') = filter crowned (kingSessions db) \<Longrightarrow>
   players db' = players db \<Longrightarrow> finalStreaks getTime db' = finalStreaks getTime db"
  by (simp add: finalStreaks_def walk_sortedSessions)

text \<open>
  Claim C7. A session whose \<open>kings\<close> list is empty is skipped by the walk: processing it
  returns both streak objects, every player's running streak and longest streak, as they
  were. So the walk over a history gives the same result with the session or without
  it, wherever the session stands, and so do the final streak objects and the result of
  \<open>useKingInfo\<close> for a snapshot whose history holds the session at any place.
\<close>

theorem vacant_session_keeps_streaks:
  "k_kings session = [] \<Longrightarrow>
     sessionStep ps st session = st
   \<and> walkSessions ps (before @ session # after) = walkSessions ps (before @ after)
   \<and> finalStreaks getTime (db\<lparr> kingSessions := before @ session # after \<rparr>)
       = finalStreaks getTime (db\<lparr> kingSessions := before @ after \<rparr>)
   \<and> useKingInfo getTime (db\<lparr> kingSessions := before @ session # after \<rparr>)
       = useKingInfo getTime (db\<lparr> kingSessions := before @ after \<rparr>)"
proof -
  assume v: "k_kings session = []"
  have f: "finalStreaks getTime (db\<lparr> kingSessions := before @ session # after \<rparr>)
       = finalStreaks getTime (db\<lparr> kingSessions := before @ after \<rparr>)"
    by (rule finalStreaks_crowned) (simp_all add: crowned_def v)
  have u: "useKingInfo getTime (db\<lparr> kingSessions := before @ session # after \<rparr>)
       = useKingInfo getTime (db\<lparr> kingSessions := before @ after \<rparr>)"
    unfolding useKingInfo_def f by simp
  from v f u show ?thesis by (simp add: sessionStep_def walkSessions_def)
qed

theorem vacant_session_keeps_streaks_witness:
  "k_kings (demoKing ''k0'' ''2024-01-02T23:00:00.000Z'' []) = []
   \<and> finalStreaks isoTime
        (demoDB\<lparr> kingSessions := [demoKing ''k3'' ''2024-01-03T20:00:00.000Z'' [''p2''],
                                  demoKing ''k1'' ''2024-01-01T20:00:00.000Z'' [''p1'']]
                               @ demoKing ''k0'' ''2024-01-02T23:00:00.000Z'' []
                               # [demoKing ''k2'' ''2024-01-02T20:00:00.000Z'' [''p1'']] \<rparr>)
     = finalStreaks isoTime
        (demoDB\<lparr> kingSessions := [demoKing ''k3'' ''2024-01-03T20:00:00.000Z'' [''p2''],
                                  demoKing ''k1'' ''2024-01-01T20:00:00.000Z'' [''p1'']]
                               @ [demoKing ''k2'' ''2024-01-02T20:00:00.000Z'' [''p1'']] \<rparr>)
   \<and> fst (finalStreaks isoTime
        (demoDB\<lparr> kingSessions := [demoKing ''k3'' ''2024-01-03T20:00:00.000Z'' [''p2''],
                                  demoKing ''k1'' ''2024-01-01T20:00:00.000Z'' [''p1'']]
                               @ [demoKing ''k2'' ''2024-01-02T20:00:00.000Z'' [''p1'']] \<rparr>))
         ''p1'' = Some 2"
proof -
  have e: "k_kings (demoKing ''k0'' ''2024-01-02T23:00:00.000Z'' []) = []"
    by (simp add: demoKing_def)
  have v: "fst (finalStreaks isoTime
        (demoDB\<lparr> kingSessions := [demoKing ''k3'' ''2024-01-03T20:00:00.000Z'' [''p2''],
                                  demoKing ''k1'' ''2024-01-01T20:00:00.000Z'' [''p1'']]
                               @ [demoKing ''k2'' ''2024-01-02T20:00:00.000Z'' [''p1'']] \<rparr>))
         ''p1'' = Some 2"
    by code_simp
  from vacant_session_keeps_streaks [OF e, where getTime = isoTime and db = demoDB
      and before = "[demoKing ''k3'' ''2024-01-03T20:00:00.000Z'' [''p2''],
                     demoKing ''k1'' ''2024-01-01T20:00:00.000Z'' [''p1'']]"
      and after = "[demoKing ''k2'' ''2024-01-02T20:00:00.000Z'' [''p1'']]"] e v
  show ?thesis by blast
qed

section \<open>Best-of-N session and finalizer\<close>

lemma winsNeeded_div: "winsNeeded activeSession = (s_bestOf activeSession + 1) div 2"
proof -
  have "\<lceil>real_of_int (s_bestOf activeSession) / 2\<rceil> = - (- s_bestOf activeSession div 2)"
    using ceiling_divide_eq_div [of "s_bestOf activeSession" 2, where ?'a = real] by simp
  then show ?thesis unfolding winsNeeded_def by presburger
qed

lemma slotWonByA_iff:
  "slotWonByA m \<longleftrightarrow> (\<exists>ga gb. a_goalsA m = Some ga \<and> a_goalsB m = Some gb \<and> ga > gb)"
  by (auto simp: slotWonByA_def split: option.splits)

lemma slotWonByB_iff:
  "slotWonByB m \<longleftrightarrow> (\<exists>ga gb. a_goalsA m = Some ga \<and> a_goalsB m = Some gb \<and> gb > ga)"
  by (auto simp: slotWonByB_def split: option.splits)

lemma not_both_won: "\<not> (slotWonByA m \<and> slotWonByB m)"
  by (auto simp: slotWonByA_iff slotWonByB_iff)

lemma teamAWins_insert:
  "teamAWins (before @ m # after) = teamAWins (before @ after) + (if slotWonByA m then 1 else 0)"
  by (simp add: teamAWins_def)

lemma teamBWins_insert:
  "teamBWins (before @ m # after) = teamBWins (before @ after) + (if slotWonByB m then 1 else 0)"
  by (simp add: teamBWins_def)

lemma tallies_le_length:
  "length (filter slotWonByA schedule) + length (filter slotWonByB schedule) \<le> length schedule"
  by (induction schedule) (use not_both_won in auto)

lemma tallies_le: "teamAWins schedule + teamBWins schedule \<le> int (length schedule)"
  using tallies_le_length [of schedule] by (simp add: teamAWins_def teamBWins_def)

lemma saveSession_confirmAnswer:
  "saveSession (env\<lparr> confirmAnswer := x \<rparr>) activeSession schedule db
     = saveSession env activeSession schedule db"
  by (simp add: saveSession_def newMatches_def newKingSession_def)

lemma updateScore_length: "length (updateScore parseInt schedule matchId team val) = length schedule"
  by (simp add: updateScore_def)

lemma demo_tallies:
  "winsNeeded demoSession = 2 \<and> teamAWins demoSchedule = 2 \<and> teamBWins demoSchedule = 0"
  by (simp add: winsNeeded_div demoSession_def teamAWins_def teamBWins_def demoSchedule_def
      demoSlot_def slotWonByA_def slotWonByB_def)

lemma demo_typed:
  "updateScore decimal
     [demoSlot ''s1'' (Some 2) (Some 1), demoSlot ''s2'' None None, demoSlot ''s3'' (Some 3) None]
     ''s3'' B ''0'' = demoSchedule"
  by (simp add: updateScore_def demoSchedule_def demoSlot_def decimal_def Let_def)


text \<open>
  Claim C2. \<open>winsNeeded\<close> is the ceiling of \<open>bestOf / 2\<close>. A slot counts for team A exactly
  when both its scores are filled and \<open>goalsA > goalsB\<close>, and for team B exactly when both
  are filled and \<open>goalsB > goalsA\<close>, so a tied or unfilled slot counts for neither; each
  slot adds one or nothing to a tally. Whenever either tally has reached \<open>winsNeeded\<close>,
  the effect that follows the render finalizes the session: the snapshot is saved and
  the active session is cleared, whatever the user would have answered to a confirmation
  and however many slots are filled. The same holds for the schedule that a typed score
  produces.
\<close>

theorem autoFinish_at_threshold:
  "winsNeeded activeSession = \<lceil>real_of_int (s_bestOf activeSession) / 2\<rceil>
   \<and> (slotWonByA m \<longleftrightarrow> (\<exists>ga gb. a_goalsA m = Some ga \<and> a_goalsB m = Some gb \<and> ga > gb))
   \<and> (slotWonByB m \<longleftrightarrow> (\<exists>ga gb. a_goalsA m = Some ga \<and> a_goalsB m = Some gb \<and> gb > ga))
   \<and> teamAWins (before @ m # after)
       = teamAWins (before @ after) + (if slotWonByA m then 1 else 0)
   \<and> teamBWins (before @ m # after)
       = teamBWins (before @ after) + (if slotWonByB m then 1 else 0)
   \<and> (teamAWins schedule \<ge> winsNeeded activeSession
        \<or> teamBWins schedule \<ge> winsNeeded activeSession
      \<longrightarrow> autoFinish (env\<lparr> confirmAnswer := answer \<rparr>) activeSession schedule db
            = (saveSession env activeSession schedule db, None))
   \<and> (teamAWins (updateScore parseInt schedule matchId team val) \<ge> winsNeeded activeSession
        \<or> teamBWins (updateScore parseInt schedule matchId team val) \<ge> winsNeeded activeSession
      \<longrightarrow> scoreEntered (env\<lparr> confirmAnswer := answer \<rparr>) parseInt activeSession schedule db
              matchId team val
            = (updateScore parseInt schedule matchId team val,
               saveSession env activeSession (updateScore parseInt schedule matchId team val) db,
               None))"
proof -
  have auto_fin: "autoFinish (env\<lparr> confirmAnswer := answer \<rparr>) activeSession sch db
            = (saveSession env activeSession sch db, None)"
    if "teamAWins sch \<ge> winsNeeded activeSession \<or> teamBWins sch \<ge> winsNeeded activeSession"
    for sch
    using that by (simp add: autoFinish_def finishSession_def saveSession_confirmAnswer)
  show ?thesis
    unfolding scoreEntered_def Let_def
    using auto_fin slotWonByA_iff [of m] slotWonByB_iff [of m]
      teamAWins_insert [of before m after] teamBWins_insert [of before m after]
    by (simp add: winsNeeded_def)
qed

theorem autoFinish_at_threshold_witness:
  "winsNeeded demoSession = 2
   \<and> teamAWins demoSchedule \<ge> winsNeeded demoSession
   \<and> length (filter bothFilled demoSchedule) = 2
   \<and> length demoSchedule = 3
   \<and> autoFinish (demoEnv\<lparr> confirmAnswer := False \<rparr>) demoSession demoSchedule demoDB
       = (saveSession demoEnv demoSession demoSchedule demoDB, None)
   \<and> scoreEntered (demoEnv\<lparr> confirmAnswer := False \<rparr>) decimal demoSession
        [demoSlot ''s1'' (Some 2) (Some 1), demoSlot ''s2'' None None, demoSlot ''s3'' (Some 3) None]
        demoDB ''s3'' B ''0''
       = (demoSchedule, saveSession demoEnv demoSession demoSchedule demoDB, None)"
proof -
  let ?typing = "[demoSlot ''s1'' (Some 2) (Some 1), demoSlot ''s2'' None None, demoSlot ''s3'' (Some 3) None]"
  have t: "teamAWins demoSchedule \<ge> winsNeeded demoSession" using demo_tallies by simp
  have f: "length (filter bothFilled demoSchedule) = 2" "length demoSchedule = 3"
    by (simp_all add: demoSchedule_def demoSlot_def bothFilled_def)
  have a: "autoFinish (demoEnv\<lparr> confirmAnswer := False \<rparr>) demoSession demoSchedule demoDB
       = (saveSession demoEnv demoSession demoSchedule demoDB, None)"
    and e: "scoreEntered (demoEnv\<lparr> confirmAnswer := False \<rparr>) decimal demoSession ?typing
        demoDB ''s3'' B ''0''
       = (demoSchedule, saveSession demoEnv demoSession demoSchedule demoDB, None)"
    using autoFinish_at_threshold
      [where activeSession = demoSession and schedule = demoSchedule and env = demoEnv
        and answer = False and db = demoDB]
      autoFinish_at_threshold
      [where activeSession = demoSession and schedule = ?typing and env = demoEnv
        and answer = False and db = demoDB and parseInt = decimal and matchId = "''s3''"
        and team = B and val = "''0''"]
      t
    unfolding demo_typed by blast+
  from a e t f demo_tallies show ?thesis by blast
qed

lemma newMatches_length: "length (newMatches env activeSession schedule) = length (filledSlots schedule)"
  by (simp add: newMatches_def)

lemma filledSlots_filter:
  "map fst (filledSlots schedule) = filter bothFilled schedule"
  by (induction schedule)
     (auto simp: filledSlots_def List.map_filter_def bothFilled_def split: option.splits)

lemma filledSlots_goals:
  "(m, ga, gb) \<in> set (filledSlots schedule) \<Longrightarrow> a_goalsA m = Some ga \<and> a_goalsB m = Some gb"
  by (auto simp: filledSlots_def List.map_filter_def split: option.splits)

lemma filledSlots_goals_map:
  "map (\<lambda>(m, ga, gb). (ga, gb)) (filledSlots schedule)
     = map (\<lambda>m. (the (a_goalsA m), the (a_goalsB m))) (filter bothFilled schedule)"
  by (induction schedule)
     (auto simp: filledSlots_def List.map_filter_def bothFilled_def split: option.splits)

lemma map_enumerate_snd: "map (\<lambda>(i, x). f x) (enumerate n xs) = map f xs"
  by (induction xs arbitrary: n) simp_all

lemma newMatches_goals:
  "map (\<lambda>m. (m_goalsA m, m_goalsB m)) (newMatches env activeSession schedule)
     = map (\<lambda>(m, ga, gb). (ga, gb)) (filledSlots schedule)"
proof -
  have "map (\<lambda>m. (m_goalsA m, m_goalsB m)) (newMatches env activeSession schedule)
      = map (\<lambda>(i, x). (\<lambda>(m, ga, gb). (ga, gb)) x) (enumerate 1 (filledSlots schedule))"
    unfolding newMatches_def by (simp add: case_prod_beta o_def)
  then show ?thesis unfolding map_enumerate_snd .
qed

lemma newMatches_shared:
  "x \<in> set (newMatches env activeSession schedule) \<Longrightarrow>
     m_sessionId x = Some (uid env 0) \<and> m_dateISO x = now env
   \<and> m_mode x = s_mode activeSession \<and> m_enteredBy x = ''Session''"
  by (auto simp: newMatches_def)


text \<open>
  Claim C3. Finalizing saves, in one update of the snapshot, the old match list followed
  by the new matches and the old session list followed by exactly one new KingSession;
  players, violations and theme are untouched. There is one new match per slot with both
  scores filled, in schedule order and with the slot's goals; slots with a missing score
  produce nothing. Every new match carries the id of the new KingSession (the first
  \<open>uid()\<close> of the call) as its \<open>sessionId\<close> and the finalization instant as its date, which
  is also the date of the KingSession. \<open>finishSession\<close> does finalize when it is called
  confirmed, when a team has reached \<open>winsNeeded\<close>, or when the user confirms.
\<close>

theorem finishSession_saves_filled_slots:
  "matches (saveSession env activeSession schedule db)
     = matches db @ newMatches env activeSession schedule
   \<and> kingSessions (saveSession env activeSession schedule db)
     = kingSessions db @ [newKingSession env activeSession schedule]
   \<and> players (saveSession env activeSession schedule db) = players db
   \<and> violations (saveSession env activeSession schedule db) = violations db
   \<and> theme (saveSession env activeSession schedule db) = theme db
   \<and> length (newMatches env activeSession schedule) = length (filter bothFilled schedule)
   \<and> map (\<lambda>x. (m_goalsA x, m_goalsB x)) (newMatches env activeSession schedule)
     = map (\<lambda>m. (the (a_goalsA m), the (a_goalsB m))) (filter bothFilled schedule)
   \<and> (\<forall>x \<in> set (newMatches env activeSession schedule).
        m_sessionId x = Some (k_id (newKingSession env activeSession schedule))
      \<and> m_dateISO x = now env)
   \<and> k_id (newKingSession env activeSession schedule) = uid env 0
   \<and> k_dateISO (newKingSession env activeSession schedule) = now env
   \<and> (isConfirmed \<or> teamAWins schedule \<ge> winsNeeded activeSession
        \<or> teamBWins schedule \<ge> winsNeeded activeSession \<or> confirmAnswer env
      \<longrightarrow> finishSession env activeSession schedule isConfirmed db
            = (saveSession env activeSession schedule db, None))"
proof -
  have len: "length (newMatches env activeSession schedule) = length (filter bothFilled schedule)"
    using filledSlots_filter [of schedule, THEN arg_cong, of length]
    by (simp add: newMatches_length)
  have goals: "map (\<lambda>x. (m_goalsA x, m_goalsB x)) (newMatches env activeSession schedule)
     = map (\<lambda>m. (the (a_goalsA m), the (a_goalsB m))) (filter bothFilled schedule)"
    by (simp only: newMatches_goals filledSlots_goals_map)
  have kid: "k_id (newKingSession env activeSession schedule) = uid env 0"
    and kdate: "k_dateISO (newKingSession env activeSession schedule) = now env"
    by (simp_all add: newKingSession_def)
  have shared: "\<forall>x \<in> set (newMatches env activeSession schedule).
        m_sessionId x = Some (k_id (newKingSession env activeSession schedule))
      \<and> m_dateISO x = now env"
    unfolding kid using newMatches_shared by blast
  have fin: "isConfirmed \<or> teamAWins schedule \<ge> winsNeeded activeSession
        \<or> teamBWins schedule \<ge> winsNeeded activeSession \<or> confirmAnswer env
      \<longrightarrow> finishSession env activeSession schedule isConfirmed db
            = (saveSession env activeSession schedule db, None)"
    by (auto simp: finishSession_def)
  have db: "matches (saveSession env activeSession schedule db)
       = matches db @ newMatches env activeSession schedule
     \<and> kingSessions (saveSession env activeSession schedule db)
       = kingSessions db @ [newKingSession env activeSession schedule]
     \<and> players (saveSession env activeSession schedule db) = players db
     \<and> violations (saveSession env activeSession schedule db) = violations db
     \<and> theme (saveSession env activeSession schedule db) = theme db"
    by (simp add: saveSession_def)
  from db len goals shared kid kdate fin show ?thesis by blast
qed

theorem finishSession_saves_filled_slots_witness:
  "length demoSchedule = 3
   \<and> length (filter bothFilled demoSchedule) = 2
   \<and> length (newMatches demoEnv demoSession demoSchedule) = 2
   \<and> length (matches (saveSession demoEnv demoSession demoSchedule demoDB))
       = length (matches demoDB) + 2
   \<and> length (kingSessions (saveSession demoEnv demoSession demoSchedule demoDB))
       = length (kingSessions demoDB) + 1
   \<and> hd (newMatches demoEnv demoSession demoSchedule)
       \<in> set (newMatches demoEnv demoSession demoSchedule)
   \<and> m_sessionId (hd (newMatches demoEnv demoSession demoSchedule))
       = Some (k_id (newKingSession demoEnv demoSession demoSchedule))
   \<and> m_dateISO (hd (newMatches demoEnv demoSession demoSchedule)) = now demoEnv
   \<and> finishSession demoEnv demoSession demoSchedule True demoDB
       = (saveSession demoEnv demoSession demoSchedule demoDB, None)"
proof -
  have f: "length demoSchedule = 3" "length (filter bothFilled demoSchedule) = 2"
    by (simp_all add: demoSchedule_def demoSlot_def bothFilled_def)
  have h: "hd (newMatches demoEnv demoSession demoSchedule)
       \<in> set (newMatches demoEnv demoSession demoSchedule)"
    by (simp add: newMatches_def filledSlots_def List.map_filter_def demoSchedule_def demoSlot_def)
  from finishSession_saves_filled_slots [of demoEnv demoSession demoSchedule demoDB True] f h
  show ?thesis by auto
qed

text \<open>
  Claim C4. In a session with its two teams, the winner is team A if team A's tally has
  reached \<open>winsNeeded\<close>, else team B if team B's has, else nobody; and the \<open>kings\<close> of the
  new KingSession are the winner's players, or the empty list when there is no winner.
\<close>

theorem winnerTeam_determination:
  "s_teams activeSession = [teamA, teamB] \<Longrightarrow>
     winnerTeam activeSession schedule
       = (if teamAWins schedule \<ge> winsNeeded activeSession then Some teamA
          else if teamBWins schedule \<ge> winsNeeded activeSession then Some teamB
          else None)
   \<and> k_kings (newKingSession env activeSession schedule)
       = (if teamAWins schedule \<ge> winsNeeded activeSession then t_players teamA
          else if teamBWins schedule \<ge> winsNeeded activeSession then t_players teamB
          else [])"
  by (simp add: winnerTeam_def newKingSession_def kingsOf_def elemAt_def)

theorem winnerTeam_determination_witness:
  "s_teams demoSession = [demoTeamA, demoTeamB]
   \<and> teamAWins demoSchedule \<ge> winsNeeded demoSession
   \<and> winnerTeam demoSession demoSchedule = Some demoTeamA
   \<and> k_kings (newKingSession demoEnv demoSession demoSchedule) = t_players demoTeamA"
proof -
  have s: "s_teams demoSession = [demoTeamA, demoTeamB]" by (simp add: demoSession_def)
  have t: "teamAWins demoSchedule \<ge> winsNeeded demoSession" using demo_tallies by simp
  from winnerTeam_determination [OF s, of demoSchedule demoEnv] s t show ?thesis by simp
qed

text \<open>
  Claim C10. When \<open>bestOf\<close> is odd and the schedule has \<open>bestOf\<close> slots, the two tallies add
  up to at most \<open>bestOf\<close>, which is less than twice \<open>winsNeeded\<close>; so the two teams cannot
  both have reached \<open>winsNeeded\<close>, and the winner that the finalizer picks is the only
  team with a claim to the title.
\<close>

theorem at_most_one_winner:
  assumes "odd (s_bestOf activeSession)"
      and "int (length schedule) = s_bestOf activeSession"
  shows "teamAWins schedule + teamBWins schedule \<le> s_bestOf activeSession
       \<and> s_bestOf activeSession < 2 * winsNeeded activeSession
       \<and> \<not> (teamAWins schedule \<ge> winsNeeded activeSession
            \<and> teamBWins schedule \<ge> winsNeeded activeSession)"
proof -
  have sum: "teamAWins schedule + teamBWins schedule \<le> s_bestOf activeSession"
    using tallies_le [of schedule] assms(2) by simp
  have lt: "s_bestOf activeSession < 2 * winsNeeded activeSession"
    unfolding winsNeeded_div using assms(1) by presburger
  from sum lt show ?thesis by linarith
qed

theorem at_most_one_winner_witness:
  "odd (s_bestOf demoSession)
   \<and> int (length demoSchedule) = s_bestOf demoSession
   \<and> teamAWins demoSchedule \<ge> winsNeeded demoSession
   \<and> \<not> (teamAWins demoSchedule \<ge> winsNeeded demoSession
        \<and> teamBWins demoSchedule \<ge> winsNeeded demoSession)"
proof -
  have o: "odd (s_bestOf demoSession)" by (simp add: demoSession_def)
  have l: "int (length demoSchedule) = s_bestOf demoSession"
    by (simp add: demoSession_def demoSchedule_def)
  have t: "teamAWins demoSchedule \<ge> winsNeeded demoSession" using demo_tallies by simp
  from at_most_one_winner [OF o l] o l t show ?thesis by blast
qed

section \<open>Export and import: the text is read back as it was written\<close>


lemma skipWs_id: "\<not> isWs c \<Longrightarrow> skipWs (c # s) = c # s"
  by simp

lemma wsOnly_append [simp]: "wsOnly (a @ b) \<longleftrightarrow> wsOnly a \<and> wsOnly b"
  by (simp add: wsOnly_def)


lemma wsOnly_nl: "wsOnly [CHR 0x0A]"
  by (simp add: wsOnly_def isWs_def)



























lemma stripPrefix_append: "stripPrefix p (p @ s) = Some s"
  by (induction p) simp_all






























lemma distinctKeys_strings: "distinctKeys (JArr (map JStr xs))"
  by (simp add: list_all_iff)








lemma demo_export_text:
  "ExportButton_download (jsDB \<lparr> theme = BVB, players = [\<lparr> p_id = ''p1'', p_name = ''Amy'' \<rparr>],
                                 matches = [], kingSessions = [], violations = [] \<rparr>)
   = ''{'' @ [CHR 0x0A]
     @ ''  '' @ [CHR 0x22] @ ''theme'' @ [CHR 0x22] @ '': '' @ [CHR 0x22] @ ''BVB'' @ [CHR 0x22] @ '','' @ [CHR 0x0A]
     @ ''  '' @ [CHR 0x22] @ ''players'' @ [CHR 0x22] @ '': ['' @ [CHR 0x0A]
     @ ''    {'' @ [CHR 0x0A]
     @ ''      '' @ [CHR 0x22] @ ''id'' @ [CHR 0x22] @ '': '' @ [CHR 0x22] @ ''p1'' @ [CHR 0x22] @ '','' @ [CHR 0x0A]
     @ ''      '' @ [CHR 0x22] @ ''name'' @ [CHR 0x22] @ '': '' @ [CHR 0x22] @ ''Amy'' @ [CHR 0x22] @ [CHR 0x0A]
     @ ''    }'' @ [CHR 0x0A]
     @ ''  ],'' @ [CHR 0x0A]
     @ ''  '' @ [CHR 0x22] @ ''matches'' @ [CHR 0x22] @ '': [],'' @ [CHR 0x0A]
     @ ''  '' @ [CHR 0x22] @ ''kingSessions'' @ [CHR 0x22] @ '': [],'' @ [CHR 0x0A]
     @ ''  '' @ [CHR 0x22] @ ''violations'' @ [CHR 0x22] @ '': []'' @ [CHR 0x0A]
     @ ''}''"
  by code_simp


lemma adequateD:
  "adequate f N \<Longrightarrow> f N s = Some (x, r) \<Longrightarrow>
   length r < length s \<and> (\<forall>n. length s - length r \<le> n \<longrightarrow> f n s = Some (x, r))"
  unfolding adequate_def by blast

lemma length_skipWs: "length (skipWs s) \<le> length s"
  by (induction s) auto

lemma skipWs_Cons_length: "skipWs s = c # r \<Longrightarrow> length r < length s"
  using length_skipWs [of s] by simp

lemma parseStr_shorter: "parseStr s = Some (x, t) \<Longrightarrow> length t < length s"
proof (induction "length s" arbitrary: s x t rule: less_induct)
  case less
  have ih: "length t' < length s'" if "parseStr s' = Some (x', t')" "length s' < length s" for s' x' t'
    using less.hyps [OF that(2) that(1)] .
  show ?case
  proof (cases s)
    case Nil
    then show ?thesis using less.prems by simp
  next
    case (Cons c cs)
    from less.prems show ?thesis
      unfolding Cons
      by (auto split: if_splits list.splits option.splits dest!: ih simp: Cons)
  qed
qed

lemma stripPrefix_length: "stripPrefix p s = Some r \<Longrightarrow> length s = length p + length r"
  by (induction p s rule: stripPrefix.induct) (auto split: if_splits)

lemma literal_shorter: "word \<noteq> [] \<Longrightarrow> literal word v s = Some (x, r) \<Longrightarrow> length r < length s"
  by (auto simp: literal_def split: option.splits dest!: stripPrefix_length)

lemma length_takeWhile_dropWhile:
  "length (takeWhile P xs) + length (dropWhile P xs) = length xs"
  by (induction xs) simp_all

lemma parseNumber_shorter: "parseNumber s = Some (x, r) \<Longrightarrow> length r < length s"
proof -
  assume p: "parseNumber s = Some (x, r)"
  define t where "t = (if (case s of c # r \<Rightarrow> c = CHR ''-'' | [] \<Rightarrow> False) then tl s else s)"
  from p have ne: "takeWhile isDigit t \<noteq> []" and r: "r = dropWhile isDigit t"
    unfolding t_def by (auto simp: parseNumber_def Let_def split: if_splits)
  have "length r < length t"
    using ne r length_takeWhile_dropWhile [of isDigit t] by (cases "takeWhile isDigit t") auto
  moreover have "length t \<le> length s" unfolding t_def by (cases s) auto
  ultimately show ?thesis by simp
qed

lemma parseElements_Suc_cases:
  assumes "parseElements (Suc N) s = Some (vs, r)"
  obtains (last) v r1 where "parseValue N s = Some (v, r1)" "skipWs r1 = CHR '']'' # r" "vs = [v]"
        | (more) v r1 r2 vs' where "parseValue N s = Some (v, r1)" "skipWs r1 = CHR '','' # r2"
            "parseElements N r2 = Some (vs', r)" "vs = v # vs'"
  using assms by (auto split: option.splits list.splits if_splits)

lemma adequate_parseElements:
  assumes V: "adequate parseValue N" and E: "adequate parseElements N"
  shows "adequate parseElements (Suc N)"
  unfolding adequate_def
proof (intro allI impI)
  fix s vs r assume p: "parseElements (Suc N) s = Some (vs, r)"
  from p show "length r < length s
      \<and> (\<forall>n. length s - length r \<le> n \<longrightarrow> parseElements n s = Some (vs, r))"
  proof (cases rule: parseElements_Suc_cases)
    case (last v r1)
    from adequateD [OF V last(1)] have l1: "length r1 < length s"
      and f1: "\<And>n. length s - length r1 \<le> n \<Longrightarrow> parseValue n s = Some (v, r1)" by blast+
    have l2: "length r < length r1" using skipWs_Cons_length [OF last(2)] .
    have "parseElements n s = Some (vs, r)" if n: "length s - length r \<le> n" for n
    proof -
      from n l1 l2 obtain n' where n': "n = Suc n'" and "length s - length r1 \<le> n'"
        by (cases n) auto
      then have "parseValue n' s = Some (v, r1)" using f1 by blast
      then show ?thesis using last by (simp add: n')
    qed
    then show ?thesis using l1 l2 by simp
  next
    case (more v r1 r2 vs')
    from adequateD [OF V more(1)] have l1: "length r1 < length s"
      and f1: "\<And>n. length s - length r1 \<le> n \<Longrightarrow> parseValue n s = Some (v, r1)" by blast+
    have l2: "length r2 < length r1" using skipWs_Cons_length [OF more(2)] .
    from adequateD [OF E more(3)] have l3: "length r < length r2"
      and f3: "\<And>n. length r2 - length r \<le> n \<Longrightarrow> parseElements n r2 = Some (vs', r)" by blast+
    have "parseElements n s = Some (vs, r)" if n: "length s - length r \<le> n" for n
    proof -
      from n l1 l2 l3 obtain n' where n': "n = Suc n'" and a: "length s - length r1 \<le> n'"
        and b: "length r2 - length r \<le> n'"
        by (cases n) auto
      have "parseValue n' s = Some (v, r1)" using f1 a by blast
      moreover have "parseElements n' r2 = Some (vs', r)" using f3 b by blast
      ultimately show ?thesis using more by (simp add: n')
    qed
    then show ?thesis using l1 l2 l3 by simp
  qed
qed

lemma parseMembers_Suc_cases:
  assumes "parseMembers (Suc N) s = Some (kvs, r)"
  obtains (last) s0 k r1 r2 v r3 where "skipWs s = CHR 0x22 # s0" "parseStr s0 = Some (k, r1)"
            "skipWs r1 = CHR '':'' # r2" "parseValue N r2 = Some (v, r3)"
            "skipWs r3 = CHR ''}'' # r" "kvs = [(k, v)]"
        | (more) s0 k r1 r2 v r3 r4 kvs' where "skipWs s = CHR 0x22 # s0" "parseStr s0 = Some (k, r1)"
            "skipWs r1 = CHR '':'' # r2" "parseValue N r2 = Some (v, r3)"
            "skipWs r3 = CHR '','' # r4" "parseMembers N r4 = Some (kvs', r)" "kvs = (k, v) # kvs'"
  using assms by (auto split: option.splits list.splits if_splits)

lemma adequate_parseMembers:
  assumes V: "adequate parseValue N" and M: "adequate parseMembers N"
  shows "adequate parseMembers (Suc N)"
  unfolding adequate_def
proof (intro allI impI)
  fix s kvs r assume p: "parseMembers (Suc N) s = Some (kvs, r)"
  from p show "length r < length s
      \<and> (\<forall>n. length s - length r \<le> n \<longrightarrow> parseMembers n s = Some (kvs, r))"
  proof (cases rule: parseMembers_Suc_cases)
    case (last s0 k r1 r2 v r3)
    have l0: "length s0 < length s" using skipWs_Cons_length [OF last(1)] .
    have l1: "length r1 < length s0" using parseStr_shorter [OF last(2)] .
    have l2: "length r2 < length r1" using skipWs_Cons_length [OF last(3)] .
    from adequateD [OF V last(4)] have l3: "length r3 < length r2"
      and f: "\<And>n. length r2 - length r3 \<le> n \<Longrightarrow> parseValue n r2 = Some (v, r3)" by blast+
    have l4: "length r < length r3" using skipWs_Cons_length [OF last(5)] .
    have "parseMembers n s = Some (kvs, r)" if n: "length s - length r \<le> n" for n
    proof -
      from n l0 l1 l2 l3 l4 obtain n' where n': "n = Suc n'" and "length r2 - length r3 \<le> n'"
        by (cases n) auto
      then have "parseValue n' r2 = Some (v, r3)" using f by blast
      then show ?thesis using last by (simp add: n')
    qed
    then show ?thesis using l0 l1 l2 l3 l4 by simp
  next
    case (more s0 k r1 r2 v r3 r4 kvs')
    have l0: "length s0 < length s" using skipWs_Cons_length [OF more(1)] .
    have l1: "length r1 < length s0" using parseStr_shorter [OF more(2)] .
    have l2: "length r2 < length r1" using skipWs_Cons_length [OF more(3)] .
    from adequateD [OF V more(4)] have l3: "length r3 < length r2"
      and f: "\<And>n. length r2 - length r3 \<le> n \<Longrightarrow> parseValue n r2 = Some (v, r3)" by blast+
    have l4: "length r4 < length r3" using skipWs_Cons_length [OF more(5)] .
    from adequateD [OF M more(6)] have l5: "length r < length r4"
      and g: "\<And>n. length r4 - length r \<le> n \<Longrightarrow> parseMembers n r4 = Some (kvs', r)" by blast+
    have "parseMembers n s = Some (kvs, r)" if n: "length s - length r \<le> n" for n
    proof -
      from n l0 l1 l2 l3 l4 l5 obtain n' where n': "n = Suc n'"
        and a: "length r2 - length r3 \<le> n'" and b: "length r4 - length r \<le> n'"
        by (cases n) auto
      have "parseValue n' r2 = Some (v, r3)" using f a by blast
      moreover have "parseMembers n' r4 = Some (kvs', r)" using g b by blast
      ultimately show ?thesis using more by (simp add: n')
    qed
    then show ?thesis using l0 l1 l2 l3 l4 l5 by simp
  qed
qed

lemma parseValue_Suc_cases:
  assumes "parseValue (Suc N) s = Some (x, r)"
  obtains (object) r0 d r' kvs where "skipWs s = CHR ''{'' # r0" "skipWs r0 = d # r'"
            "d \<noteq> CHR ''}''" "parseMembers N (d # r') = Some (kvs, r)" "x = JObj (Map_new kvs)"
        | (array) r0 d r' vs where "skipWs s = CHR ''['' # r0" "skipWs r0 = d # r'"
            "d \<noteq> CHR '']''" "parseElements N (d # r') = Some (vs, r)" "x = JArr vs"
        | (flat) "length r < length s" "\<And>n. parseValue (Suc n) s = Some (x, r)"
proof -
  obtain c r0 where s: "skipWs s = c # r0" using assms by (auto split: list.splits)
  have ls: "length (c # r0) \<le> length s" using length_skipWs [of s] s by simp
  consider (o) "c = CHR ''{''" | (a) "c = CHR ''[''" "c \<noteq> CHR ''{''"
    | (q) "c = CHR 0x22" | (w) "c \<noteq> CHR ''{''" "c \<noteq> CHR ''[''" "c \<noteq> CHR 0x22" by blast
  then show ?thesis
  proof cases
    case o
    from assms obtain d r' where d: "skipWs r0 = d # r'"
      by (auto simp: s o split: list.splits)
    show ?thesis
    proof (cases "d = CHR ''}''")
      case True
      then have "x = JObj []" "r = r'" using assms by (simp_all add: s o d)
      moreover have "length r' < length r0" using skipWs_Cons_length [OF d] .
      ultimately show ?thesis using ls True by (intro flat) (simp_all add: s o d)
    next
      case False
      then show ?thesis using assms object [OF s [unfolded o] d False]
        by (auto simp: s o d split: option.splits)
    qed
  next
    case a
    from assms obtain d r' where d: "skipWs r0 = d # r'"
      by (auto simp: s a split: list.splits)
    show ?thesis
    proof (cases "d = CHR '']''")
      case True
      then have "x = JArr []" "r = r'" using assms by (simp_all add: s a d)
      moreover have "length r' < length r0" using skipWs_Cons_length [OF d] .
      ultimately show ?thesis using ls True by (intro flat) (simp_all add: s a d)
    next
      case False
      then show ?thesis using assms array [OF s [unfolded a(1)] d False]
        by (auto simp: s a d split: option.splits)
    qed
  next
    case q
    from assms obtain str where p: "parseStr r0 = Some (str, r)" and x: "x = JStr str"
      by (auto simp: s q split: option.splits)
    have "length r < length r0" using parseStr_shorter [OF p] .
    then show ?thesis using ls p x by (intro flat) (simp_all add: s q)
  next
    case w
    have eq: "parseValue (Suc n) s =
        (if c = CHR ''t'' then literal ''true'' (JBool True) (c # r0)
         else if c = CHR ''f'' then literal ''false'' (JBool False) (c # r0)
         else if c = CHR ''n'' then literal ''null'' JNull (c # r0)
         else parseNumber (c # r0))" for n
      using w by (simp add: s)
    have "length r < length (c # r0)"
      using assms unfolding eq
      by (auto split: if_splits dest: literal_shorter [rotated] parseNumber_shorter)
    then have shorter: "length r < length s" using ls by simp
    have any: "parseValue (Suc n) s = Some (x, r)" for n
      using assms unfolding eq [of N] eq [of n] .
    from shorter any show ?thesis by (rule flat)
  qed
qed

lemma adequate_parseValue:
  assumes E: "adequate parseElements N" and M: "adequate parseMembers N"
  shows "adequate parseValue (Suc N)"
  unfolding adequate_def
proof (intro allI impI)
  fix s x r assume p: "parseValue (Suc N) s = Some (x, r)"
  from p show "length r < length s
      \<and> (\<forall>n. length s - length r \<le> n \<longrightarrow> parseValue n s = Some (x, r))"
  proof (cases rule: parseValue_Suc_cases)
    case (object r0 d r' kvs)
    have l0: "length r0 < length s" using skipWs_Cons_length [OF object(1)] .
    have l1: "length (d # r') \<le> length r0" using length_skipWs [of r0] object(2) by simp
    from adequateD [OF M object(4)] have l2: "length r < length (d # r')"
      and f: "\<And>n. length (d # r') - length r \<le> n \<Longrightarrow> parseMembers n (d # r') = Some (kvs, r)"
      by blast+
    have "parseValue n s = Some (x, r)" if n: "length s - length r \<le> n" for n
    proof -
      from n l0 l1 l2 obtain n' where n': "n = Suc n'" and "length (d # r') - length r \<le> n'"
        by (cases n) auto
      then have "parseMembers n' (d # r') = Some (kvs, r)" using f by blast
      then show ?thesis using object by (simp add: n')
    qed
    then show ?thesis using l0 l1 l2 by simp
  next
    case (array r0 d r' vs)
    have l0: "length r0 < length s" using skipWs_Cons_length [OF array(1)] .
    have l1: "length (d # r') \<le> length r0" using length_skipWs [of r0] array(2) by simp
    from adequateD [OF E array(4)] have l2: "length r < length (d # r')"
      and f: "\<And>n. length (d # r') - length r \<le> n \<Longrightarrow> parseElements n (d # r') = Some (vs, r)"
      by blast+
    have "parseValue n s = Some (x, r)" if n: "length s - length r \<le> n" for n
    proof -
      from n l0 l1 l2 obtain n' where n': "n = Suc n'" and "length (d # r') - length r \<le> n'"
        by (cases n) auto
      then have "parseElements n' (d # r') = Some (vs, r)" using f by blast
      then show ?thesis using array by (simp add: n')
    qed
    then show ?thesis using l0 l1 l2 by simp
  next
    case flat
    have "parseValue n s = Some (x, r)" if n: "length s - length r \<le> n" for n
    proof -
      from n flat(1) obtain n' where "n = Suc n'" by (cases n) auto
      then show ?thesis using flat(2) by simp
    qed
    then show ?thesis using flat(1) by simp
  qed
qed

lemma adequate_all: "adequate parseValue N \<and> adequate parseElements N \<and> adequate parseMembers N"
proof (induction N)
  case 0
  show ?case by (simp add: adequate_def)
next
  case (Suc N)
  then show ?case
    by (simp add: adequate_parseValue adequate_parseElements adequate_parseMembers)
qed

lemma fuel_enough:
  assumes "parseValue N text = Some (v, r)"
  shows "parseValue (length text) text = Some (v, r)"
  using adequateD [OF adequate_all [THEN conjunct1] assms] by simp

lemma JSON_parse_any_fuel:
  "parseValue N text = Some (v, r) \<Longrightarrow> skipWs r = [] \<Longrightarrow> JSON_parse text = Some v"
  by (simp add: JSON_parse_def fuel_enough)

end
